theory Spec2Isabelle
  imports Complex_Main "HOL-Library.Word" "HOL-Library.AList"
begin

section \<open>TorFlow slice and aggregator: a shallow embedding\<close>

text \<open>
  The two C files \<^verbatim>\<open>torflow-slice.c\<close> and \<^verbatim>\<open>torflow-aggregator.c\<close> are embedded
  function by function. Conventions:
  \<^item> \<^verbatim>\<open>guint\<close> is a 32-bit word; its arithmetic wraps around, as unsigned arithmetic in C
    does.
  \<^item> A \<^verbatim>\<open>gdouble\<close> is a binary64 number: every quotient, product and conversion is
    rounded to the nearest representable value, ties to even.
  \<^item> A \<^verbatim>\<open>GHashTable\<close> keyed by strings is an association list. The order of the list is
    the iteration order of the table, which GLib leaves unspecified: the theorems hold
    for every order, and the evaluations at example inputs show one. On the tables of a
    slice \<^verbatim>\<open>g_hash_table_replace\<close> is \<open>AList.update\<close> and \<^verbatim>\<open>g_hash_table_steal\<close> is
    \<open>AList.delete\<close>.
  \<^item> A \<^verbatim>\<open>gchar*\<close> that may be \<^verbatim>\<open>NULL\<close> is a \<open>string option\<close>.
  \<^item> The storage of a key is live or freed. The keys of the entries and the exits of a
    slice are shared with the table \<^verbatim>\<open>targets\<close> of \<^verbatim>\<open>torflowslice_chooseRelayPair\<close>,
    which frees them; the key of a row of the aggregator points into the row. A call that
    hashes or frees a freed key has no defined behaviour.
\<close>

subsection \<open>Relays, as the slice and the aggregator read them\<close>

text \<open>
  \<^verbatim>\<open>TorFlowRelay\<close> is declared in \<^verbatim>\<open>torflow.h\<close>; the record has the fields the two
  files read, directly or through the \<^verbatim>\<open>torflowrelay_get...\<close> accessors. The
  field names carry the prefix \<open>relay_\<close> because \<^verbatim>\<open>TorFlowRelayStats\<close> below has
  fields of the same names.
\<close>

record TorFlowRelay =
  relay_nickname :: string
  relay_identity :: string
  relay_isAuth :: bool
  relay_isExit :: bool
  relay_descriptorBandwidth :: int
  relay_advertisedBandwidth :: int
  relay_measureCount :: int

subsection \<open>Doubles, integers and decimal output\<close>

text \<open>
  A \<^verbatim>\<open>gdouble\<close> is a rational that binary64 represents, or one of the three special
  values of IEEE 754. Signed zeros are not distinguished; the divisors of the source are
  a table size, \<^verbatim>\<open>RAND_MAX\<close> and an average of integers, which are never the negative
  zero.
\<close>

datatype gdouble = Fin rat | PInf | NInf | NaN

text \<open>The number of binary digits of a natural number.\<close>

fun bit_length :: "nat \<Rightarrow> nat" where
  "bit_length n = (if n = 0 then 0 else Suc (bit_length (n div 2)))"

declare bit_length.simps [simp del]

text \<open>The binary exponent of a positive rational \<open>x\<close>: the \<open>e\<close> with \<open>2^e \<le> x < 2^(e+1)\<close>.\<close>

definition ilog2 :: "rat \<Rightarrow> int" where
  "ilog2 x = (if 1 \<le> x then int (bit_length (nat \<lfloor>x\<rfloor>)) - 1
              else - int (bit_length (nat (\<lceil>1 / x\<rceil> - 1))))"

text \<open>Rounding to the nearest integer, a tie going to the even one.\<close>

definition round_half_even :: "rat \<Rightarrow> int" where
  "round_half_even n =
     (let f = \<lfloor>n\<rfloor>; d = n - of_int f
      in if d < 1 / 2 then f else if 1 / 2 < d then f + 1 else if even f then f else f + 1)"

definition binary64_overflow :: rat where
  "binary64_overflow = 2 ^ 1024"

text \<open>
  The rounding of binary64 in the default mode. A number of binary exponent \<open>e\<close> is
  rounded to a multiple of \<open>2^(e - 52)\<close>, which leaves 53 significant bits; below the
  least normal exponent -1022 the spacing stays \<open>2^(-1074)\<close> (the subnormal numbers); a
  result that reaches \<open>2^1024\<close> is an infinity.
\<close>

definition round_binary64 :: "rat \<Rightarrow> gdouble" where
  "round_binary64 q =
     (if q = 0 then Fin 0
      else let x = \<bar>q\<bar>;
               e = max (ilog2 x) (- 1022);
               ulp = 2 powi (e - 52);
               y = of_int (round_half_even (x / ulp)) * ulp
           in if binary64_overflow \<le> y then (if 0 < q then PInf else NInf)
              else Fin (if 0 < q then y else - y))"

text \<open>The conversion of an integer to \<^verbatim>\<open>gdouble\<close>; it is exact below \<open>2^53\<close>.\<close>

definition int_to_double :: "int \<Rightarrow> gdouble" where
  "int_to_double i = round_binary64 (of_int i)"

fun ddiv :: "gdouble \<Rightarrow> gdouble \<Rightarrow> gdouble" where
  "ddiv NaN y = NaN"
| "ddiv x NaN = NaN"
| "ddiv (Fin a) (Fin b) =
     (if b = 0 then (if a = 0 then NaN else if a > 0 then PInf else NInf)
      else round_binary64 (a / b))"
| "ddiv (Fin a) y = Fin 0"
| "ddiv PInf (Fin b) = (if b \<ge> 0 then PInf else NInf)"
| "ddiv NInf (Fin b) = (if b \<ge> 0 then NInf else PInf)"
| "ddiv x y = NaN"

fun dmul :: "gdouble \<Rightarrow> gdouble \<Rightarrow> gdouble" where
  "dmul NaN y = NaN"
| "dmul x NaN = NaN"
| "dmul (Fin a) (Fin b) = round_binary64 (a * b)"
| "dmul (Fin a) PInf = (if a = 0 then NaN else if a > 0 then PInf else NInf)"
| "dmul (Fin a) NInf = (if a = 0 then NaN else if a > 0 then NInf else PInf)"
| "dmul PInf (Fin b) = (if b = 0 then NaN else if b > 0 then PInf else NInf)"
| "dmul NInf (Fin b) = (if b = 0 then NaN else if b > 0 then NInf else PInf)"
| "dmul PInf PInf = PInf"
| "dmul NInf NInf = PInf"
| "dmul PInf NInf = NInf"
| "dmul NInf PInf = NInf"

text \<open>C99 \<^verbatim>\<open>fmax\<close>: a NaN argument is treated as missing.\<close>

fun fmax :: "gdouble \<Rightarrow> gdouble \<Rightarrow> gdouble" where
  "fmax NaN y = y"
| "fmax x NaN = x"
| "fmax PInf y = PInf"
| "fmax x PInf = PInf"
| "fmax NInf y = y"
| "fmax x NInf = x"
| "fmax (Fin a) (Fin b) = Fin (max a b)"

text \<open>C99 \<^verbatim>\<open>floor\<close>; the floor of a binary64 number is a binary64 number.\<close>

fun dfloor :: "gdouble \<Rightarrow> gdouble" where
  "dfloor (Fin q) = Fin (of_int \<lfloor>q\<rfloor>)"
| "dfloor x = x"

definition truncate_rat :: "rat \<Rightarrow> int" where
  "truncate_rat q = (if q < 0 then \<lceil>q\<rceil> else \<lfloor>q\<rfloor>)"

text \<open>
  The cast \<^verbatim>\<open>(gint)\<close> of a double truncates toward zero. C leaves the conversion of a
  value outside the range of \<^verbatim>\<open>gint\<close>, of an infinity and of a NaN undefined; \<open>und\<close> is
  the value the platform produces there (\<^verbatim>\<open>INT_MIN\<close> on x86-64).
\<close>

definition double_to_gint :: "int \<Rightarrow> gdouble \<Rightarrow> int" where
  "double_to_gint und d =
     (case d of
        Fin q \<Rightarrow> (let t = truncate_rat q in if - (2 ^ 31) \<le> t \<and> t < 2 ^ 31 then t else und)
      | _ \<Rightarrow> und)"

text \<open>
  The cast \<^verbatim>\<open>(guint)\<close> of a double. Its one use converts a floor between 0 and the
  number of candidates, which is in range; the value 0 stands for the conversions that C
  leaves undefined.
\<close>

definition double_to_guint :: "gdouble \<Rightarrow> nat" where
  "double_to_guint d =
     (case d of
        Fin q \<Rightarrow> (let t = truncate_rat q in if 0 \<le> t \<and> t < 2 ^ 32 then nat t else 0)
      | _ \<Rightarrow> 0)"

text \<open>
  A \<^verbatim>\<open>gint\<close> is an integer between \<open>-2^31\<close> and \<open>2^31 - 1\<close>. C leaves the overflow of a
  signed addition undefined. The accumulators of the aggregator are given the two's
  complement result of the machine addition, \<open>gint_wrap\<close>, so that the functions are
  total; \<open>gint_sums_defined acc xs\<close> says that adding the values \<open>xs\<close> one after the other
  to \<open>acc\<close> never overflows, and the statements about the totals assume it.
\<close>

definition gint_wrap :: "int \<Rightarrow> int" where
  "gint_wrap i = (i + 2 ^ 31) mod 2 ^ 32 - 2 ^ 31"

fun gint_sums_defined :: "int \<Rightarrow> int list \<Rightarrow> bool" where
  "gint_sums_defined acc [] = True"
| "gint_sums_defined acc (x # xs) =
     (- (2 ^ 31) \<le> acc + x \<and> acc + x < 2 ^ 31 \<and> gint_sums_defined (acc + x) xs)"

text \<open>Decimal output of \<^verbatim>\<open>%d\<close>, \<^verbatim>\<open>%i\<close> and \<^verbatim>\<open>%li\<close>.\<close>

definition digit :: "nat \<Rightarrow> char" where
  "digit d = ''0123456789'' ! d"

fun show_nat :: "nat \<Rightarrow> string" where
  "show_nat n = (if n < 10 then [digit n] else show_nat (n div 10) @ [digit (n mod 10)])"

definition show_int :: "int \<Rightarrow> string" where
  "show_int i = (if i < 0 then CHR ''-'' # show_nat (nat (- i)) else show_nat (nat i))"

definition newline :: string where
  "newline = [CHR 0x0A]"

subsection \<open>Keys and their storage\<close>

text \<open>
  A key pointer with the state of the storage it points to. Reading a freed key is
  undefined in C.
\<close>

datatype keyptr = Live string | Freed string

text \<open>
  GLib's \<^verbatim>\<open>g_str_hash\<close>: \<^verbatim>\<open>h = 5381\<close>, then \<^verbatim>\<open>h = (h << 5) + h + *p\<close> for every
  \<^verbatim>\<open>signed char\<close> of the string. A table compares a stored key with the key looked up
  only when the two have the same hash.
\<close>

definition signed_char :: "char \<Rightarrow> 32 word" where
  "signed_char c = (let n = int (of_char c) in of_int (if n < 128 then n else n - 256))"

definition g_str_hash :: "string \<Rightarrow> 32 word" where
  "g_str_hash v = fold (\<lambda>c h. push_bit 5 h + h + signed_char c) v 5381"

subsection \<open>The slice\<close>

type_synonym guint = "32 word"
type_synonym probe_table = "(string \<times> guint) list"

record TorFlowSlice =
  sliceID :: guint
  percentile :: rat
  numProbesPerRelay :: guint
  totalProbesRemaining :: guint
  relayIDSearch :: "string option"
  relayIDFound :: bool
  entries :: probe_table
  exits :: probe_table
  auths :: probe_table

text \<open>
  A slice with the state of the keys of its entries and exits: \<open>KeysLive\<close> when all of them
  are live, as \<^verbatim>\<open>torflowslice_new\<close> and \<^verbatim>\<open>torflowslice_addRelay\<close> leave them, and
  \<open>KeysFreed\<close> when at least one has been freed. The functions on \<open>TorFlowSlice\<close> below
  that read keys (\<^verbatim>\<open>torflowslice_addRelay\<close>, \<^verbatim>\<open>torflowslice_contains\<close>) are the functions
  of the source on a slice whose keys are live; \<^verbatim>\<open>torflowslice_getNumProbesRemaining\<close>
  reads the counts only.
\<close>

datatype slice_state = KeysLive TorFlowSlice | KeysFreed TorFlowSlice

definition G_MAXUINT :: guint where
  "G_MAXUINT = - 1"

text \<open>\<^verbatim>\<open>RAND_MAX\<close> of the C library (glibc).\<close>

definition RAND_MAX :: nat where
  "RAND_MAX = 2147483647"

text \<open>\<^verbatim>\<open>g_hash_table_foreach\<close>: the callback sees every key and value, and the user data.\<close>

definition g_hash_table_foreach ::
  "(string \<Rightarrow> 'v \<Rightarrow> 'a \<Rightarrow> 'a) \<Rightarrow> (string \<times> 'v) list \<Rightarrow> 'a \<Rightarrow> 'a" where
  "g_hash_table_foreach f t a = fold (\<lambda>(k, v). f k v) t a"

text \<open>
  \<^verbatim>\<open>g_hash_table_lookup\<close> on a table whose values are \<^verbatim>\<open>GUINT_TO_POINTER\<close> counts: the
  result is the pointer, which is \<^verbatim>\<open>NULL\<close> (0) for a missing key and also for a stored
  count of 0.
\<close>

definition g_hash_table_lookup :: "probe_table \<Rightarrow> string \<Rightarrow> guint" where
  "g_hash_table_lookup t k = (case map_of t k of None \<Rightarrow> 0 | Some v \<Rightarrow> v)"

text \<open>\<^verbatim>\<open>g_queue_peek_nth\<close>: \<^verbatim>\<open>NULL\<close> when the position is off the end.\<close>

definition g_queue_peek_nth :: "'a list \<Rightarrow> nat \<Rightarrow> 'a option" where
  "g_queue_peek_nth q n = (if n < length q then Some (q ! n) else None)"

definition torflowslice_computeMinProbes :: "string \<Rightarrow> guint \<Rightarrow> guint \<Rightarrow> guint" where
  "torflowslice_computeMinProbes key probes minProbes = min minProbes probes"

definition torflowslice_getCandidates :: "probe_table \<Rightarrow> string list" where
  "torflowslice_getCandidates t =
     (let minProbes = g_hash_table_foreach torflowslice_computeMinProbes t G_MAXUINT
      in map fst (filter (\<lambda>(key, numProbes). numProbes = minProbes) t))"

text \<open>
  \<open>rInt\<close> is the value \<^verbatim>\<open>rand()\<close> returns, between 0 and \<^verbatim>\<open>RAND_MAX\<close>. The quotient and
  the product are binary64 operations, as in the source.
\<close>

definition torflowslice_randomIndex :: "nat \<Rightarrow> nat \<Rightarrow> nat" where
  "torflowslice_randomIndex numElements rInt =
     (if numElements \<le> 0 then 0
      else let rDouble = ddiv (int_to_double (int rInt)) (int_to_double (int RAND_MAX));
               rIndex = dmul rDouble (int_to_double (int numElements));
               randomIdx = double_to_guint (dfloor rIndex)
           in if randomIdx \<ge> numElements then numElements - 1 else randomIdx)"

definition torflowslice_countProbesRemaining :: "string \<Rightarrow> guint \<Rightarrow> TorFlowSlice \<Rightarrow> TorFlowSlice" where
  "torflowslice_countProbesRemaining key numProbes sl =
     (let remaining = (if numProbes \<ge> numProbesPerRelay sl then 0
                       else numProbesPerRelay sl - numProbes)
      in sl\<lparr>totalProbesRemaining := totalProbesRemaining sl + remaining\<rparr>)"

definition torflowslice_new :: "guint \<Rightarrow> rat \<Rightarrow> guint \<Rightarrow> TorFlowSlice" where
  "torflowslice_new sid pct n =
     \<lparr>sliceID = sid, percentile = pct, numProbesPerRelay = n, totalProbesRemaining = 0,
      relayIDSearch = None, relayIDFound = False, entries = [], exits = [], auths = []\<rparr>"

definition torflowslice_addRelay :: "TorFlowSlice \<Rightarrow> TorFlowRelay \<Rightarrow> bool \<Rightarrow> TorFlowSlice" where
  "torflowslice_addRelay sl relay onlyMeasureExits =
     (let relayID = relay_identity relay; numProbes = 0
      in if relay_isAuth relay then sl\<lparr>auths := AList.update relayID numProbes (auths sl)\<rparr>
         else if relay_isExit relay then sl\<lparr>exits := AList.update relayID numProbes (exits sl)\<rparr>
         else if \<not> onlyMeasureExits
           then sl\<lparr>entries := AList.update relayID numProbes (entries sl)\<rparr>
         else sl)"

definition torflowslice_getLength :: "TorFlowSlice \<Rightarrow> nat" where
  "torflowslice_getLength sl = length (exits sl) + length (entries sl)"

text \<open>The result is the pair of the returned count and the slice with its scratch field set.\<close>

definition torflowslice_getNumProbesRemaining :: "TorFlowSlice \<Rightarrow> guint \<times> TorFlowSlice" where
  "torflowslice_getNumProbesRemaining sl =
     (let s0 = sl\<lparr>totalProbesRemaining := 0\<rparr>;
          s1 = g_hash_table_foreach torflowslice_countProbesRemaining (entries s0) s0;
          s2 = g_hash_table_foreach torflowslice_countProbesRemaining (exits s1) s1
      in (totalProbesRemaining s2, s2))"

text \<open>
  \<^verbatim>\<open>g_hash_table_replace\<close> on a table that frees its keys with \<^verbatim>\<open>g_free\<close>, as
  \<^verbatim>\<open>targets\<close> does (line 216): the new key and value take the place of an equal key,
  and the storage of the key that was there is freed. The second component collects the
  keys freed.
\<close>

definition g_hash_table_replace ::
  "string \<Rightarrow> guint \<Rightarrow> probe_table \<times> string list \<Rightarrow> probe_table \<times> string list" where
  "g_hash_table_replace key val df =
     (let (d, freed) = df
      in (AList.update key val d, if key \<in> set (map fst d) then freed @ [key] else freed))"

text \<open>
  \<^verbatim>\<open>_torflowslice_mergeTables\<close>: the keys of \<open>one\<close>, then the keys of \<open>two\<close>, go into
  \<open>dest\<close>, which shares their storage. The result is the table and the keys it freed on
  the way: the keys of \<open>one\<close> that are also in \<open>two\<close>.
\<close>

definition torflowslice_mergeTables ::
  "probe_table \<Rightarrow> probe_table \<Rightarrow> probe_table \<Rightarrow> probe_table \<times> string list" where
  "torflowslice_mergeTables dest one two =
     fold (\<lambda>(key, val). g_hash_table_replace key val) two
       (fold (\<lambda>(key, val). g_hash_table_replace key val) one (dest, []))"

text \<open>
  What a call of \<^verbatim>\<open>torflowslice_chooseRelayPair\<close> does: it returns, or it reads or frees
  storage that is already freed, after which C defines nothing. \<open>Returns None\<close> is the
  return value \<^verbatim>\<open>FALSE\<close>; \<open>Returns (Some (e, x))\<close> is \<^verbatim>\<open>TRUE\<close> with
  \<^verbatim>\<open>*entryRelayIdentity = e\<close> and \<^verbatim>\<open>*exitRelayIdentity = x\<close>.
\<close>

datatype choose_result =
  Returns "(keyptr \<times> keyptr) option" slice_state
| UseAfterFree

text \<open>
  \<^verbatim>\<open>torflowslice_chooseRelayPair\<close>. \<open>r1\<close> and \<open>r2\<close> are what \<^verbatim>\<open>rand()\<close> returns for the
  two draws of lines 224 and 225, when \<^verbatim>\<open>_torflowslice_randomIndex\<close> makes one.
  \<^item> On a slice with a freed key and probes remaining, \<^verbatim>\<open>_torflowslice_mergeTables\<close>
    hashes every key of the entries and the exits (line 202), the freed one too.
  \<^item> When the merge frees a key of the entries (an identity that is also in the exits) and
    the return is at lines 230 to 237, the table \<^verbatim>\<open>targets\<close> is not destroyed and the
    slice is left with that freed key.
  \<^item> The lookup of line 240 compares the target with the keys of the entries that have
    its hash; one of them freed is a read of freed storage.
  \<^item> \<^verbatim>\<open>g_hash_table_steal\<close> and \<^verbatim>\<open>g_hash_table_replace\<close> of lines 255 to 266 put the
    target back with its new count under the same key pointer, and
    \<^verbatim>\<open>g_hash_table_destroy(targets)\<close> of line 289 frees every key of \<^verbatim>\<open>targets\<close>: all
    keys of the entries and the exits, and the target returned to the caller. The
    identity of the authority is a key of the authorities and stays live.
  \<^item> The second \<^verbatim>\<open>NULL\<close> test of the source (line 243) asks for \<^verbatim>\<open>authID == NULL\<close>,
    which the first test has excluded, so it has no branch here. The log lines are left
    out: they change neither the slice nor the result.
\<close>

definition torflowslice_chooseRelayPair :: "nat \<Rightarrow> nat \<Rightarrow> slice_state \<Rightarrow> choose_result" where
  "torflowslice_chooseRelayPair r1 r2 st =
     (case st of
        KeysFreed sl0 \<Rightarrow>
          (let (remaining, sl) = torflowslice_getNumProbesRemaining sl0
           in if remaining \<le> 0 then Returns None (KeysFreed sl) else UseAfterFree)
      | KeysLive sl0 \<Rightarrow>
          (let (remaining, sl) = torflowslice_getNumProbesRemaining sl0
           in if remaining \<le> 0 then Returns None (KeysLive sl)
              else
                (let (targets, freed) = torflowslice_mergeTables [] (entries sl) (exits sl);
                     candidateTargets = torflowslice_getCandidates targets;
                     candidateAuths = torflowslice_getCandidates (auths sl);
                     targetPosition = torflowslice_randomIndex (length candidateTargets) r1;
                     authPosition = torflowslice_randomIndex (length candidateAuths) r2
                 in case (g_queue_peek_nth candidateTargets targetPosition,
                          g_queue_peek_nth candidateAuths authPosition) of
                      (Some targetID, Some authID) \<Rightarrow>
                        if g_str_hash targetID \<in> set (map g_str_hash freed) then UseAfterFree
                        else
                          (let entryProbeCount = g_hash_table_lookup (entries sl) targetID;
                               exitProbeCount = g_hash_table_lookup (exits sl) targetID;
                               measureEntry = (entryProbeCount \<noteq> 0);
                               stolen = (if measureEntry
                                         then sl\<lparr>entries := AList.delete targetID (entries sl)\<rparr>
                                         else sl\<lparr>exits := AList.delete targetID (exits sl)\<rparr>);
                               newTargetCount =
                                 (if measureEntry then entryProbeCount else exitProbeCount) + 1;
                               stored = (if measureEntry
                                         then stolen\<lparr>entries :=
                                                AList.update targetID newTargetCount (entries stolen)\<rparr>
                                         else stolen\<lparr>exits :=
                                                AList.update targetID newTargetCount (exits stolen)\<rparr>)
                           in Returns
                                (Some (if measureEntry then (Freed targetID, Live authID)
                                       else (Live authID, Freed targetID)))
                                (KeysFreed stored))
                    | _ \<Rightarrow> Returns None (if freed = [] then KeysLive sl else KeysFreed sl))))"

subsection \<open>Membership with the one-slot cache\<close>

text \<open>
  GLib's \<^verbatim>\<open>g_ascii_strcasecmp\<close> and its macro \<^verbatim>\<open>TOLOWER\<close>, which gives the code of
  the character with the letters A to Z moved to a to z. A string is the characters before
  the terminating NUL.
\<close>

definition TOLOWER :: "char \<Rightarrow> int" where
  "TOLOWER c = (let n = int (of_char c) in if 65 \<le> n \<and> n \<le> 90 then n - 65 + 97 else n)"

fun g_ascii_strcasecmp :: "string \<Rightarrow> string \<Rightarrow> int" where
  "g_ascii_strcasecmp (x # s1) (y # s2) =
     (let c1 = TOLOWER x; c2 = TOLOWER y
      in if c1 \<noteq> c2 then c1 - c2 else g_ascii_strcasecmp s1 s2)"
| "g_ascii_strcasecmp [] [] = 0"
| "g_ascii_strcasecmp [] (y # s2) = - int (of_char y)"
| "g_ascii_strcasecmp (x # s1) [] = int (of_char x)"

text \<open>
  The callback compares with the slice's search string. \<^verbatim>\<open>g_ascii_strcasecmp\<close> returns 0
  when an argument is \<^verbatim>\<open>NULL\<close>; \<^verbatim>\<open>torflowslice_contains\<close> sets the search string before
  every scan.
\<close>

definition torflowslice_FindRelayID :: "string \<Rightarrow> guint \<Rightarrow> TorFlowSlice \<Rightarrow> TorFlowSlice" where
  "torflowslice_FindRelayID key val sl =
     (case relayIDSearch sl of
        Some search \<Rightarrow>
          (if g_ascii_strcasecmp key search = 0 then sl\<lparr>relayIDFound := True\<rparr> else sl)
      | None \<Rightarrow> sl\<lparr>relayIDFound := True\<rparr>)"

text \<open>Lines 350 to 362 of \<^verbatim>\<open>torflowslice_contains\<close>: the search, and its result cached.\<close>

definition searchAndCache :: "TorFlowSlice \<Rightarrow> string \<Rightarrow> bool \<times> TorFlowSlice" where
  "searchAndCache sl relayID =
     (let s0 = sl\<lparr>relayIDSearch := Some relayID, relayIDFound := False\<rparr>;
          s1 = g_hash_table_foreach torflowslice_FindRelayID (entries s0) s0;
          s2 = (if \<not> relayIDFound s1 then g_hash_table_foreach torflowslice_FindRelayID (exits s1) s1 else s1)
      in (relayIDFound s2, s2))"

definition torflowslice_contains :: "TorFlowSlice \<Rightarrow> string option \<Rightarrow> bool \<times> TorFlowSlice" where
  "torflowslice_contains sl relayIDp =
     (case relayIDp of
        None \<Rightarrow> (False, sl)
      | Some relayID \<Rightarrow>
          (case relayIDSearch sl of
             Some cached \<Rightarrow>
               (if g_ascii_strcasecmp relayID cached = 0 then (relayIDFound sl, sl)
                else searchAndCache (sl\<lparr>relayIDSearch := None, relayIDFound := False\<rparr>) relayID)
           | None \<Rightarrow> searchAndCache sl relayID))"

subsection \<open>The aggregator\<close>

text \<open>
  \<^verbatim>\<open>gint\<close> fields are integers. The log function \<^verbatim>\<open>slogf\<close> is the list of messages it
  receives.
\<close>

record TorFlowRelayStats =
  nickname :: string
  identity :: string
  descriptorBandwidth :: int
  advertisedBandwidth :: int
  newBandwidth :: int
  meanBandwidth :: int
  filteredBandwidth :: int

text \<open>
  The table \<^verbatim>\<open>relayStats\<close> has no function to free a key and frees a row with
  \<^verbatim>\<open>_torflowaggregator_torFlowRelayStatsFree\<close> (line 177). The key of a row is the
  pointer \<^verbatim>\<open>tfrs->identity->str\<close> into the row (lines 128 and 148): it is live as long
  as the row it was inserted with.
\<close>

type_synonym stats_table = "(keyptr \<times> TorFlowRelayStats) list"

record TorFlowAggregator =
  numWorkers :: int
  gotInitial :: bool
  filename :: string
  relayStats :: stats_table
  nodeCap :: gdouble
  version :: int

datatype ShadowLogLevel = SHADOW_LOG_LEVEL_MESSAGE | SHADOW_LOG_LEVEL_WARNING

text \<open>
  What the machine answers during one call: the clock, the return values of
  \<^verbatim>\<open>unlink\<close> and \<^verbatim>\<open>symlink\<close> (0 on success, -1 on failure), the value of an
  undefined conversion to \<^verbatim>\<open>gint\<close>, and whether the comparison of a freed key with a
  key of the same hash finds them equal. The file is taken to open and to be written.
\<close>

record PublishEnv =
  now_sec :: int
  unlink_ret :: int
  symlink_ret :: int
  undef_gint :: int
  stale_key_equal :: bool

text \<open>What one publish leaves outside the aggregator: the file written and the log.\<close>

record PublishOutput =
  outFile :: string
  outText :: string
  logged :: "(ShadowLogLevel \<times> string) list"

text \<open>
  \<^verbatim>\<open>g_hash_table_insert\<close> on \<^verbatim>\<open>relayStats\<close>. Without an equal key the row is added
  under its own, live key. With an equal key the table keeps the old key and frees the
  old row, so that the key it keeps points into freed storage. A stored key that is
  already freed and has the hash of the new key is compared with it, which reads freed
  storage: \<open>staleEq\<close> is the answer of that comparison. When it is no, the search goes on
  and the row may be added a second time.
\<close>

fun g_hash_table_insert ::
  "bool \<Rightarrow> string \<Rightarrow> TorFlowRelayStats \<Rightarrow> stats_table \<Rightarrow> stats_table" where
  "g_hash_table_insert staleEq key val [] = [(Live key, val)]"
| "g_hash_table_insert staleEq key val ((Live k, v) # t) =
     (if k = key then (Freed k, val) # t
      else (Live k, v) # g_hash_table_insert staleEq key val t)"
| "g_hash_table_insert staleEq key val ((Freed k, v) # t) =
     (if g_str_hash k = g_str_hash key \<and> staleEq then (Freed k, val) # t
      else (Freed k, v) # g_hash_table_insert staleEq key val t)"

text \<open>First loop of \<^verbatim>\<open>_torflowaggregator_printToFile\<close>: the two totals.\<close>

definition totalBandwidths :: "stats_table \<Rightarrow> int \<times> int" where
  "totalBandwidths t =
     fold (\<lambda>(key, current) (totalMeanBW, totalFiltBW).
             (gint_wrap (totalMeanBW + meanBandwidth current),
              gint_wrap (totalFiltBW + filteredBandwidth current)))
       t (0, 0)"

text \<open>The right-hand side of line 63.\<close>

definition computeNewBandwidth :: "int \<Rightarrow> gdouble \<Rightarrow> gdouble \<Rightarrow> TorFlowRelayStats \<Rightarrow> int" where
  "computeNewBandwidth und avgMeanBW avgFiltBW current =
     double_to_gint und
       (dmul (int_to_double (advertisedBandwidth current))
          (fmax (ddiv (int_to_double (meanBandwidth current)) avgMeanBW)
                (ddiv (int_to_double (filteredBandwidth current)) avgFiltBW)))"

text \<open>Second loop: every entry gets its new bandwidth, and \<open>totalBW\<close> accumulates.\<close>

fun newBandwidths ::
  "int \<Rightarrow> gdouble \<Rightarrow> gdouble \<Rightarrow> stats_table \<Rightarrow> int \<Rightarrow> stats_table \<times> int" where
  "newBandwidths und avgMeanBW avgFiltBW [] totalBW = ([], totalBW)"
| "newBandwidths und avgMeanBW avgFiltBW ((key, current) # t) totalBW =
     (let nb = computeNewBandwidth und avgMeanBW avgFiltBW current;
          (t', totalBW') = newBandwidths und avgMeanBW avgFiltBW t (gint_wrap (totalBW + nb))
      in ((key, current\<lparr>newBandwidth := nb\<rparr>) # t', totalBW'))"

text \<open>
  Third loop: the cap, the log line of a capped relay and the line of the file. The
  result is the table, the log and the text, in the order of the iteration.
\<close>

fun capAndPrint ::
  "int \<Rightarrow> stats_table \<Rightarrow> stats_table \<times> (ShadowLogLevel \<times> string) list \<times> string" where
  "capAndPrint cap [] = ([], [], [])"
| "capAndPrint cap ((key, current) # t) =
     (let capped = (newBandwidth current > cap);
          current' = (if capped then current\<lparr>newBandwidth := cap\<rparr> else current);
          msgs = (if capped
                  then [(SHADOW_LOG_LEVEL_MESSAGE,
                         ''Capping bandwidth for extremely fast relay '' @ nickname current @ newline)]
                  else []);
          line = ''node_id=$'' @ identity current' @ '' bw='' @ show_int (newBandwidth current')
                   @ '' nick='' @ nickname current' @ newline;
          (t', msgs', text) = capAndPrint cap t
      in ((key, current') # t', msgs @ msgs', line @ text))"

text \<open>Lines 38 to 65: the totals, the averages and the second loop.\<close>

definition redistribute :: "int \<Rightarrow> stats_table \<Rightarrow> stats_table \<times> int" where
  "redistribute und t =
     (let (totalMeanBW, totalFiltBW) = totalBandwidths t;
          size = int_to_double (int (length t));
          avgMeanBW = ddiv (int_to_double totalMeanBW) size;
          avgFiltBW = ddiv (int_to_double totalFiltBW) size
      in newBandwidths und avgMeanBW avgFiltBW t 0)"

text \<open>
  The version is the \<^verbatim>\<open>gint\<close> counter of line 69, an integer here: it reaches the end
  of the range of \<^verbatim>\<open>gint\<close> after \<open>2^31\<close> publishes.
\<close>

definition torflowaggregator_printToFile ::
  "PublishEnv \<Rightarrow> TorFlowAggregator \<Rightarrow> TorFlowAggregator \<times> PublishOutput" where
  "torflowaggregator_printToFile env tfa =
     (let (stats1, totalBW) = redistribute (undef_gint env) (relayStats tfa);
          newFilename = filename tfa @ ''.'' @ show_int (version tfa);
          tfa1 = tfa\<lparr>version := version tfa + 1\<rparr>;
          header = show_int (now_sec env) @ newline;
          cap = double_to_gint (undef_gint env) (dmul (int_to_double totalBW) (nodeCap tfa1));
          (stats2, capLog, lines) = capAndPrint cap stats1;
          unlinkLog = (if unlink_ret env = 0
                       then [(SHADOW_LOG_LEVEL_WARNING,
                              ''Unable to remove symlink to '' @ filename tfa1 @ ''!'' @ newline)]
                       else []);
          symlinkLog = (if symlink_ret env = 0
                        then [(SHADOW_LOG_LEVEL_WARNING,
                               ''Unable to create symlink from '' @ newFilename @ '' to ''
                                 @ filename tfa1 @ ''!'' @ newline)]
                        else [])
      in (tfa1\<lparr>relayStats := stats2\<rparr>,
          \<lparr>outFile = newFilename, outText = header @ lines,
           logged = capLog @ unlinkLog @ symlinkLog\<rparr>))"

definition initialStats :: "TorFlowRelay \<Rightarrow> TorFlowRelayStats" where
  "initialStats current =
     \<lparr>nickname = relay_nickname current, identity = relay_identity current,
      descriptorBandwidth = relay_descriptorBandwidth current,
      advertisedBandwidth = relay_advertisedBandwidth current,
      newBandwidth = 0,
      meanBandwidth = relay_descriptorBandwidth current,
      filteredBandwidth = relay_descriptorBandwidth current\<rparr>"

text \<open>
  \<^verbatim>\<open>torflowaggregator_reportInitial\<close>; \<open>staleEq\<close> is the answer of the comparisons with
  freed keys, which there are when measurements were reported before.
\<close>

definition torflowaggregator_reportInitial ::
  "bool \<Rightarrow> TorFlowAggregator \<Rightarrow> TorFlowRelay list \<Rightarrow> TorFlowAggregator" where
  "torflowaggregator_reportInitial staleEq tfa relays =
     (if gotInitial tfa then tfa
      else fold (\<lambda>current a.
                   a\<lparr>relayStats :=
                       g_hash_table_insert staleEq (relay_identity current) (initialStats current)
                         (relayStats a)\<rparr>)
             relays (tfa\<lparr>gotInitial := True\<rparr>))"

text \<open>
  \<^verbatim>\<open>MEASUREMENTS_PER_SLICE\<close>, \<^verbatim>\<open>torflowutil_meanBandwidth\<close> and
  \<^verbatim>\<open>torflowutil_filteredBandwidth\<close> are declared outside the two files: they are the
  parameters \<open>perSlice\<close>, \<open>meanBW\<close> and \<open>filtBW\<close>.
\<close>

definition measuredStats ::
  "(TorFlowRelay \<Rightarrow> int) \<Rightarrow> (TorFlowRelay \<Rightarrow> int \<Rightarrow> int) \<Rightarrow> TorFlowRelay \<Rightarrow> TorFlowRelayStats" where
  "measuredStats meanBW filtBW current =
     \<lparr>nickname = relay_nickname current, identity = relay_identity current,
      descriptorBandwidth = relay_descriptorBandwidth current,
      advertisedBandwidth = relay_advertisedBandwidth current,
      newBandwidth = 0,
      meanBandwidth = meanBW current,
      filteredBandwidth = filtBW current (meanBW current)\<rparr>"

text \<open>
  \<^verbatim>\<open>g_slist_nth\<close> takes an unsigned position: a negative product is a position past the
  end of every list.
\<close>

definition g_slist_nth :: "'a list \<Rightarrow> int \<Rightarrow> 'a list" where
  "g_slist_nth l n = (if n < 0 then [] else drop (nat n) l)"

definition torflowaggregator_reportMeasurements ::
  "int \<Rightarrow> (TorFlowRelay \<Rightarrow> int) \<Rightarrow> (TorFlowRelay \<Rightarrow> int \<Rightarrow> int) \<Rightarrow> PublishEnv \<Rightarrow>
   TorFlowAggregator \<Rightarrow> TorFlowRelay list \<Rightarrow> int \<Rightarrow> int \<Rightarrow> TorFlowAggregator \<times> PublishOutput" where
  "torflowaggregator_reportMeasurements perSlice meanBW filtBW env tfa measuredRelays sliceSize currSlice =
     (let window = take (nat sliceSize) (g_slist_nth measuredRelays (sliceSize * currSlice));
          tfa1 = fold (\<lambda>current a.
                         if relay_measureCount current \<ge> perSlice
                         then a\<lparr>relayStats :=
                                  g_hash_table_insert (stale_key_equal env) (relay_identity current)
                                    (measuredStats meanBW filtBW current) (relayStats a)\<rparr>
                         else a)
                   window tfa
      in torflowaggregator_printToFile env tfa1)"

definition torflowaggregator_new :: "string \<Rightarrow> int \<Rightarrow> gdouble \<Rightarrow> TorFlowAggregator" where
  "torflowaggregator_new fname workers cap =
     \<lparr>numWorkers = workers, gotInitial = False, filename = fname, relayStats = [],
      nodeCap = cap, version = 0\<rparr>"

subsection \<open>The properties in the words of the specification\<close>

text \<open>
  The remaining-probe count as the specification gives it: over entries and exits, the sum
  of \<open>max(0, target - count)\<close>, in unbounded integers.
\<close>

definition probesRemaining_spec :: "TorFlowSlice \<Rightarrow> int" where
  "probesRemaining_spec s =
     (\<Sum>(key, probes) \<leftarrow> entries s @ exits s. max 0 (uint (numProbesPerRelay s) - uint probes))"

text \<open>
  The new bandwidth as the specification gives it: the advertised bandwidth times the
  larger of the two ratios to the averages over the whole table, in exact rationals.
\<close>

definition avgMean_spec :: "stats_table \<Rightarrow> rat" where
  "avgMean_spec t = (\<Sum>(key, st) \<leftarrow> t. of_int (meanBandwidth st)) / of_nat (length t)"

definition avgFiltered_spec :: "stats_table \<Rightarrow> rat" where
  "avgFiltered_spec t = (\<Sum>(key, st) \<leftarrow> t. of_int (filteredBandwidth st)) / of_nat (length t)"

definition newBandwidth_spec :: "stats_table \<Rightarrow> TorFlowRelayStats \<Rightarrow> rat" where
  "newBandwidth_spec t st =
     of_int (advertisedBandwidth st)
       * max (of_int (meanBandwidth st) / avgMean_spec t)
             (of_int (filteredBandwidth st) / avgFiltered_spec t)"

text \<open>
  The same formula in the arithmetic of the program: the two averages, the two quotients
  and the product each rounded to binary64, and the product cast to \<^verbatim>\<open>gint\<close>.
\<close>

definition newBandwidth_binary64_spec :: "int \<Rightarrow> stats_table \<Rightarrow> TorFlowRelayStats \<Rightarrow> int" where
  "newBandwidth_binary64_spec und t st =
     double_to_gint und
       (dmul (int_to_double (advertisedBandwidth st))
          (fmax (ddiv (int_to_double (meanBandwidth st)) (round_binary64 (avgMean_spec t)))
                (ddiv (int_to_double (filteredBandwidth st)) (round_binary64 (avgFiltered_spec t)))))"

subsection \<open>Example inputs\<close>

definition entryA :: TorFlowRelay where
  "entryA = \<lparr>relay_nickname = ''a'', relay_identity = ''A'', relay_isAuth = False,
     relay_isExit = False, relay_descriptorBandwidth = 100, relay_advertisedBandwidth = 100,
     relay_measureCount = 0\<rparr>"

definition exitB :: TorFlowRelay where
  "exitB = \<lparr>relay_nickname = ''b'', relay_identity = ''B'', relay_isAuth = False,
     relay_isExit = True, relay_descriptorBandwidth = 200, relay_advertisedBandwidth = 200,
     relay_measureCount = 0\<rparr>"

definition authX :: TorFlowRelay where
  "authX = \<lparr>relay_nickname = ''x'', relay_identity = ''X'', relay_isAuth = True,
     relay_isExit = False, relay_descriptorBandwidth = 300, relay_advertisedBandwidth = 300,
     relay_measureCount = 0\<rparr>"

text \<open>One entry relay and no authority; one probe per relay.\<close>

definition sliceNoAuth :: TorFlowSlice where
  "sliceNoAuth = torflowslice_addRelay (torflowslice_new 0 0 1) entryA False"

text \<open>One entry and one exit relay, \<open>2^31\<close> probes per relay.\<close>

definition sliceHuge :: TorFlowSlice where
  "sliceHuge = torflowslice_addRelay (torflowslice_addRelay (torflowslice_new 0 0 2147483648) entryA False) exitB False"

text \<open>One entry, one exit and one authority; two probes per relay.\<close>

definition sliceAll :: TorFlowSlice where
  "sliceAll =
     torflowslice_addRelay (torflowslice_addRelay (torflowslice_addRelay (torflowslice_new 0 0 2) entryA False) exitB False) authX False"

definition exitC :: TorFlowRelay where
  "exitC = \<lparr>relay_nickname = ''c'', relay_identity = ''C'', relay_isAuth = False,
     relay_isExit = True, relay_descriptorBandwidth = 300, relay_advertisedBandwidth = 300,
     relay_measureCount = 0\<rparr>"

text \<open>Two exits and one authority; two probes per relay.\<close>

definition sliceExits :: TorFlowSlice where
  "sliceExits =
     torflowslice_addRelay (torflowslice_addRelay (torflowslice_addRelay (torflowslice_new 0 0 2) exitB False) exitC False) authX False"

text \<open>The same slice after the exit B has been probed once.\<close>

definition sliceExitsProbed :: TorFlowSlice where
  "sliceExitsProbed =
     \<lparr>sliceID = 0, percentile = 0, numProbesPerRelay = 2, totalProbesRemaining = 4,
      relayIDSearch = None, relayIDFound = False, entries = [],
      exits = [(''C'', 0), (''B'', 1)], auths = [(''X'', 0)]\<rparr>"

text \<open>An exit relay with the identity of the entry A.\<close>

definition exitA :: TorFlowRelay where
  "exitA = \<lparr>relay_nickname = ''a2'', relay_identity = ''A'', relay_isAuth = False,
     relay_isExit = True, relay_descriptorBandwidth = 100, relay_advertisedBandwidth = 100,
     relay_measureCount = 0\<rparr>"

text \<open>The identity A both in the entries and in the exits, and one authority.\<close>

definition sliceShared :: TorFlowSlice where
  "sliceShared =
     torflowslice_addRelay (torflowslice_addRelay (torflowslice_addRelay (torflowslice_new 0 0 2) entryA False) exitA False) authX False"

definition exitMixed :: TorFlowRelay where
  "exitMixed = \<lparr>relay_nickname = ''m'', relay_identity = ''AbC9'', relay_isAuth = False,
     relay_isExit = True, relay_descriptorBandwidth = 100, relay_advertisedBandwidth = 100,
     relay_measureCount = 0\<rparr>"

text \<open>A slice asked for A before the entry A is added.\<close>

definition sliceAskedA :: TorFlowSlice where
  "sliceAskedA = torflowslice_addRelay (snd (torflowslice_contains (torflowslice_new 0 0 1) (Some ''A''))) entryA False"

text \<open>A slice asked for b before the exit B is added.\<close>

definition sliceAskedB :: TorFlowSlice where
  "sliceAskedB = torflowslice_addRelay (snd (torflowslice_contains (torflowslice_new 0 0 1) (Some ''b''))) exitB False"

text \<open>Two relays of descriptor bandwidths 1 and 3, both advertising 1.\<close>

definition relayLow :: TorFlowRelay where
  "relayLow = \<lparr>relay_nickname = ''low'', relay_identity = ''L'', relay_isAuth = False,
     relay_isExit = False, relay_descriptorBandwidth = 1, relay_advertisedBandwidth = 1,
     relay_measureCount = 0\<rparr>"

definition relayHigh :: TorFlowRelay where
  "relayHigh = \<lparr>relay_nickname = ''high'', relay_identity = ''H'', relay_isAuth = False,
     relay_isExit = False, relay_descriptorBandwidth = 3, relay_advertisedBandwidth = 1,
     relay_measureCount = 0\<rparr>"

definition tfaTwo :: TorFlowAggregator where
  "tfaTwo = torflowaggregator_reportInitial False (torflowaggregator_new ''bw'' 1 (Fin 1)) [relayLow, relayHigh]"

text \<open>Two relays of descriptor bandwidths 1 and 97, the first advertising 49.\<close>

definition relayOne :: TorFlowRelay where
  "relayOne = \<lparr>relay_nickname = ''one'', relay_identity = ''O'', relay_isAuth = False,
     relay_isExit = False, relay_descriptorBandwidth = 1, relay_advertisedBandwidth = 49,
     relay_measureCount = 0\<rparr>"

definition relayPeer :: TorFlowRelay where
  "relayPeer = \<lparr>relay_nickname = ''peer'', relay_identity = ''P'', relay_isAuth = False,
     relay_isExit = False, relay_descriptorBandwidth = 97, relay_advertisedBandwidth = 49,
     relay_measureCount = 0\<rparr>"

definition tfaRounded :: TorFlowAggregator where
  "tfaRounded = torflowaggregator_reportInitial False (torflowaggregator_new ''bw'' 1 (Fin 1)) [relayOne, relayPeer]"

text \<open>Both link steps fail, and both succeed.\<close>

definition envLinksFail :: PublishEnv where
  "envLinksFail = \<lparr>now_sec = 1500000000, unlink_ret = - 1, symlink_ret = - 1,
     undef_gint = - 2147483648, stale_key_equal = False\<rparr>"

definition envLinksOk :: PublishEnv where
  "envLinksOk = \<lparr>now_sec = 1500000000, unlink_ret = 0, symlink_ret = 0,
     undef_gint = - 2147483648, stale_key_equal = False\<rparr>"

text \<open>Three relays of descriptor bandwidths 100, 200 and 300, each advertising 200.\<close>

definition relay100 :: TorFlowRelay where
  "relay100 = \<lparr>relay_nickname = ''r1'', relay_identity = ''R1'', relay_isAuth = False,
     relay_isExit = False, relay_descriptorBandwidth = 100, relay_advertisedBandwidth = 200,
     relay_measureCount = 0\<rparr>"

definition relay200 :: TorFlowRelay where
  "relay200 = \<lparr>relay_nickname = ''r2'', relay_identity = ''R2'', relay_isAuth = False,
     relay_isExit = False, relay_descriptorBandwidth = 200, relay_advertisedBandwidth = 200,
     relay_measureCount = 0\<rparr>"

definition relay300 :: TorFlowRelay where
  "relay300 = \<lparr>relay_nickname = ''r3'', relay_identity = ''R3'', relay_isAuth = False,
     relay_isExit = True, relay_descriptorBandwidth = 300, relay_advertisedBandwidth = 200,
     relay_measureCount = 0\<rparr>"

text \<open>
  The aggregator seeded with the relays A, B and X above, whose descriptor and advertised
  bandwidths are both 100, 200 and 300.
\<close>

definition tfaSeeded :: TorFlowAggregator where
  "tfaSeeded = torflowaggregator_reportInitial False (torflowaggregator_new ''bw'' 1 (Fin 1)) [entryA, exitB, authX]"

section \<open>Properties of the binary64 rounding\<close>

lemma bit_length_bounds: "0 < n \<Longrightarrow> 2 ^ (bit_length n - 1) \<le> n \<and> n < 2 ^ bit_length n"
proof (induction n rule: bit_length.induct)
  case (1 n)
  show ?case
  proof (cases "n div 2 = 0")
    case True
    then have "n = 1" using "1.prems" by auto
    then show ?thesis by (simp add: bit_length.simps)
  next
    case False
    then have ih: "2 ^ (bit_length (n div 2) - 1) \<le> n div 2 \<and> n div 2 < 2 ^ bit_length (n div 2)"
      using "1.IH" "1.prems" by simp
    have pos: "0 < bit_length (n div 2)" using False by (simp add: bit_length.simps [of "n div 2"])
    have b: "bit_length n = Suc (bit_length (n div 2))" using "1.prems" by (simp add: bit_length.simps [of n])
    have "2 ^ (bit_length n - 1) = 2 * 2 ^ (bit_length (n div 2) - 1)"
      using pos by (simp add: b power_Suc [symmetric] del: power_Suc)
    also have "\<dots> \<le> 2 * (n div 2)" using ih by simp
    also have "\<dots> \<le> n" by simp
    finally have lo: "2 ^ (bit_length n - 1) \<le> n" .
    have "n < 2 * (n div 2) + 2" by presburger
    also have "\<dots> \<le> 2 * 2 ^ bit_length (n div 2)" using ih by simp
    finally have hi: "n < 2 ^ bit_length n" by (simp add: b)
    from lo hi show ?thesis ..
  qed
qed

lemma bit_length_pos: "0 < n \<Longrightarrow> 0 < bit_length n"
  by (simp add: bit_length.simps [of n])

lemma ilog2_bounds:
  assumes "0 < x"
  shows "2 powi (ilog2 x) \<le> x \<and> x < 2 powi (ilog2 x + 1)"
proof (cases "1 \<le> x")
  case True
  define f where "f = nat \<lfloor>x\<rfloor>"
  define b where "b = bit_length f"
  have fpos: "0 < f" using True by (simp add: f_def)
  have bb: "2 ^ (b - 1) \<le> f \<and> f < 2 ^ b" unfolding b_def by (rule bit_length_bounds [OF fpos])
  have bpos: "0 < b" unfolding b_def by (rule bit_length_pos [OF fpos])
  have e: "ilog2 x = int b - 1" using True by (simp add: ilog2_def f_def b_def)
  have fx: "(of_nat f :: rat) \<le> x" and xf: "x < of_nat f + 1"
    using True by (simp_all add: f_def) linarith+
  have p1: "(2 :: rat) powi (int b - 1) = 2 ^ (b - 1)"
    using bpos by (simp add: power_int_def nat_diff_distrib')
  have p2: "(2 :: rat) powi (int b - 1 + 1) = 2 ^ b" by (simp add: power_int_def)
  have "(2 :: rat) ^ (b - 1) \<le> of_nat f"
    using bb by (metis of_nat_le_iff of_nat_numeral of_nat_power)
  then have "(2 :: rat) ^ (b - 1) \<le> x" using fx by (rule order_trans)
  then have lo: "2 powi (ilog2 x) \<le> x" by (simp only: e p1)
  have "f + 1 \<le> 2 ^ b" using bb by simp
  then have "(of_nat (f + 1) :: rat) \<le> 2 ^ b"
    by (metis of_nat_le_iff of_nat_numeral of_nat_power)
  then have "x < 2 ^ b" using xf by simp
  then have hi: "x < 2 powi (ilog2 x + 1)" by (simp only: e p2)
  from lo hi show ?thesis ..
next
  case False
  define y where "y = 1 / x"
  define c where "c = \<lceil>y\<rceil>"
  define m where "m = nat (c - 1)"
  define k where "k = bit_length m"
  have y1: "1 < y" using False assms by (simp add: y_def)
  have c2: "2 \<le> c" using y1 unfolding c_def by linarith
  have mpos: "0 < m" using c2 by (simp add: m_def)
  have bb: "2 ^ (k - 1) \<le> m \<and> m < 2 ^ k" unfolding k_def by (rule bit_length_bounds [OF mpos])
  have kpos: "0 < k" unfolding k_def by (rule bit_length_pos [OF mpos])
  have e: "ilog2 x = - int k" using False by (simp add: ilog2_def y_def c_def m_def k_def)
  have cy: "y \<le> of_int c" and yc: "of_int c - 1 < y" unfolding c_def by linarith+
  have mc: "int m = c - 1" using c2 by (simp add: m_def)
  have "int m + 1 \<le> 2 ^ k" using bb by (metis add.commute of_nat_Suc of_nat_le_iff of_nat_numeral of_nat_power Suc_leI plus_1_eq_Suc)
  then have "c \<le> 2 ^ k" using mc by simp
  then have "(of_int c :: rat) \<le> 2 ^ k" by (metis of_int_le_iff of_int_numeral of_int_power)
  with cy have yk: "y \<le> 2 ^ k" by (rule order_trans)
  have "(2 :: int) ^ (k - 1) \<le> int m" using bb by (metis of_nat_le_iff of_nat_numeral of_nat_power)
  then have "(2 :: int) ^ (k - 1) \<le> c - 1" using mc by simp
  then have "(2 :: rat) ^ (k - 1) \<le> of_int c - 1"
    by (metis of_int_le_iff of_int_numeral of_int_power of_int_diff of_int_1)
  then have ky: "(2 :: rat) ^ (k - 1) < y" using yc by simp
  have xy: "x = 1 / y" by (simp add: y_def)
  have ypos: "0 < y" using y1 by simp
  have p1: "(2 :: rat) powi (- int k) = 1 / 2 ^ k"
    by (simp add: power_int_def field_simps)
  have p2: "(2 :: rat) powi (- int k + 1) = 1 / 2 ^ (k - 1)"
    using kpos by (simp add: power_int_def field_simps nat_diff_distrib')
  have "1 / 2 ^ k \<le> 1 / y" using yk ypos by (simp add: field_simps)
  then have "(2 :: rat) powi (- int k) \<le> x" by (simp only: p1 xy [symmetric])
  then have lo: "2 powi (ilog2 x) \<le> x" by (simp only: e)
  have "1 / y < 1 / 2 ^ (k - 1)" using ky ypos by (simp add: field_simps)
  then have "x < (2 :: rat) powi (- int k + 1)" by (simp only: p2 xy [symmetric])
  then have hi: "x < 2 powi (ilog2 x + 1)" by (simp only: e)
  from lo hi show ?thesis ..
qed

lemma pow2_less_cancel: "(2 :: rat) powi a < 2 powi b \<Longrightarrow> a < b"
proof (rule ccontr)
  assume lt: "(2 :: rat) powi a < 2 powi b" and "\<not> a < b"
  then have "b \<le> a" by simp
  then have "(2 :: rat) powi b \<le> 2 powi a" by (rule power_int_increasing) simp
  with lt show False by simp
qed

lemma ilog2_unique:
  assumes lo: "2 powi e \<le> x" and hi: "x < 2 powi (e + 1)"
  shows "ilog2 x = e"
proof -
  have "(0 :: rat) < 2 powi e" by (simp add: zero_less_power_int)
  then have xpos: "0 < x" using lo by (rule less_le_trans)
  have b: "2 powi (ilog2 x) \<le> x" "x < 2 powi (ilog2 x + 1)"
    using ilog2_bounds [OF xpos] by simp_all
  have "(2 :: rat) powi (ilog2 x) < 2 powi (e + 1)" using b(1) hi by (rule le_less_trans)
  then have one: "ilog2 x < e + 1" by (rule pow2_less_cancel)
  have "(2 :: rat) powi e < 2 powi (ilog2 x + 1)" using lo b(2) by (rule le_less_trans)
  then have two: "e < ilog2 x + 1" by (rule pow2_less_cancel)
  from one two show ?thesis by simp
qed

lemma round_half_even_of_int: "round_half_even (of_int N) = N"
  by (simp add: round_half_even_def)

lemma round_half_even_down:
  "of_int f \<le> n \<Longrightarrow> n - of_int f < 1 / 2 \<Longrightarrow> round_half_even n = f"
proof -
  assume lo: "of_int f \<le> n" and hi: "n - of_int f < 1 / 2"
  then have "\<lfloor>n\<rfloor> = f" by (simp add: floor_eq_iff)
  then show ?thesis using hi by (simp add: round_half_even_def Let_def)
qed

lemma round_half_even_up:
  "n < of_int f \<Longrightarrow> of_int f - n < 1 / 2 \<Longrightarrow> round_half_even n = f"
proof -
  assume hi: "n < of_int f" and lo: "of_int f - n < 1 / 2"
  then have fl: "\<lfloor>n\<rfloor> = f - 1" by (simp add: floor_eq_iff)
  have "1 / 2 < n - of_int (f - 1)" using lo by simp
  then show ?thesis by (simp add: round_half_even_def Let_def fl)
qed

lemma round_binary64_pos:
  assumes q: "0 < q" and lo: "2 powi e \<le> q" and hi: "q < 2 powi (e + 1)" and er: "- 1022 \<le> e"
    and r: "round_half_even (q * 2 powi (52 - e)) = r"
    and top: "of_int r * 2 powi (e - 52) < binary64_overflow"
  shows "round_binary64 q = Fin (of_int r * 2 powi (e - 52))"
proof -
  have il: "ilog2 q = e" using lo hi by (rule ilog2_unique)
  have m: "max (ilog2 q) (- 1022) = e" using il er by simp
  have n: "q / 2 powi (e - 52) = q * 2 powi (52 - e)"
    by (simp add: power_int_diff field_simps)
  have a: "\<bar>q\<bar> = q" using q by simp
  have q0: "q \<noteq> 0" using q by simp
  have nt: "\<not> binary64_overflow \<le> of_int r * 2 powi (e - 52)" using top by simp
  show ?thesis
    unfolding round_binary64_def Let_def a m n r
    using q0 q nt by simp
qed

lemma round_binary64_neg: "round_binary64 (- q) = (case round_binary64 q of Fin y \<Rightarrow> Fin (- y) | PInf \<Rightarrow> NInf | NInf \<Rightarrow> PInf | NaN \<Rightarrow> NaN)"
  by (simp add: round_binary64_def Let_def)

lemma round_binary64_exact:
  assumes m: "0 < m" and mb: "m < 2 ^ 53" and j: "- 1074 \<le> j"
    and top: "(of_int m * 2 powi j :: rat) < binary64_overflow"
  shows "round_binary64 (of_int m * 2 powi j) = Fin (of_int m * 2 powi j)"
proof -
  define x :: rat where "x = of_int m * 2 powi j"
  define e where "e = max (ilog2 x) (- 1022)"
  define d where "d = 52 + j - e"
  have p2: "(0 :: rat) < 2 powi i" for i by (simp add: zero_less_power_int)
  have xpos: "0 < x" using m p2 [of j] by (simp add: x_def)
  have "2 powi (ilog2 x) \<le> x" using ilog2_bounds [OF xpos] ..
  also have "x < 2 ^ 53 * 2 powi j"
  proof -
    have "(of_int m :: rat) < of_int (2 ^ 53)" using mb by (simp only: of_int_less_iff)
    then have "(of_int m :: rat) < 2 ^ 53" by simp
    then show ?thesis unfolding x_def using p2 [of j] by simp
  qed
  also have "\<dots> = 2 powi (53 + j)" by (simp add: power_int_add)
  finally have "ilog2 x < 53 + j" by (rule pow2_less_cancel)
  then have dge: "0 \<le> d" using j by (simp add: d_def e_def)
  define N where "N = m * 2 ^ nat d"
  have n: "x / 2 powi (e - 52) = of_int N"
  proof -
    have "x / 2 powi (e - 52) = of_int m * (2 powi j / 2 powi (e - 52))" by (simp add: x_def)
    also have "2 powi j / 2 powi (e - 52) = (2 :: rat) powi (j - (e - 52))"
      by (simp add: power_int_diff)
    also have "j - (e - 52) = d" by (simp add: d_def)
    also have "(2 :: rat) powi d = 2 ^ nat d" using dge by (simp add: power_int_def)
    finally show ?thesis by (simp add: N_def)
  qed
  have y: "of_int N * 2 powi (e - 52) = x"
    using n p2 [of "e - 52"] by (simp add: field_simps)
  have a: "\<bar>x\<bar> = x" using xpos by simp
  have x0: "x \<noteq> 0" using xpos by simp
  have nt: "\<not> binary64_overflow \<le> x" using top by (simp add: x_def)
  have "round_binary64 x = Fin x"
    unfolding round_binary64_def Let_def a e_def [symmetric] n round_half_even_of_int y
    using x0 xpos nt by simp
  then show ?thesis by (simp only: x_def)
qed

lemma round_binary64_zero [simp]: "round_binary64 0 = Fin 0"
  by (simp add: round_binary64_def)

lemma small_below_overflow: "x < 2 ^ 64 \<Longrightarrow> x < binary64_overflow"
proof -
  assume "x < 2 ^ 64"
  also have "(2 :: rat) ^ 64 \<le> 2 ^ 1024" by (rule power_increasing) simp_all
  finally show ?thesis by (simp only: binary64_overflow_def)
qed

lemma round_binary64_of_int:
  assumes "\<bar>m\<bar> < 2 ^ 53"
  shows "round_binary64 (of_int m) = Fin (of_int m)"
proof -
  have pos: "round_binary64 (of_int k) = Fin (of_int k)" if k: "0 < k" "k < 2 ^ 53" for k
  proof -
    have "(of_int k :: rat) < of_int (2 ^ 53)" using k by (simp only: of_int_less_iff)
    then have "(of_int k :: rat) < 2 ^ 53" by simp
    also have "(2 :: rat) ^ 53 \<le> 2 ^ 64" by (rule power_increasing) simp_all
    finally have "(of_int k * 2 powi 0 :: rat) < binary64_overflow"
      using small_below_overflow by simp
    from round_binary64_exact [OF k _ this] show ?thesis by simp
  qed
  consider "m = 0" | "0 < m" | "m < 0" by linarith
  then show ?thesis
  proof cases
    case 1
    then show ?thesis by simp
  next
    case 2
    then show ?thesis using pos [of m] assms by simp
  next
    case 3
    then have "round_binary64 (of_int (- m)) = Fin (of_int (- m))" using pos [of "- m"] assms by simp
    then have "round_binary64 (- of_int m) = Fin (- of_int m)" by simp
    then show ?thesis by (simp add: round_binary64_neg [of "of_int m"] split: gdouble.splits)
  qed
qed

lemma round_binary64_half:
  assumes "0 \<le> m" "m < 2 ^ 53"
  shows "round_binary64 (of_int m / 2) = Fin (of_int m / 2)"
proof (cases "m = 0")
  case True
  then show ?thesis by simp
next
  case False
  then have k: "0 < m" using assms by simp
  have "(of_int m :: rat) < of_int (2 ^ 53)" using assms by (simp only: of_int_less_iff)
  then have "(of_int m :: rat) < 2 ^ 53" by simp
  also have "(2 :: rat) ^ 53 \<le> 2 ^ 64" by (rule power_increasing) simp_all
  finally have "(of_int m :: rat) < 2 ^ 64" .
  then have "(of_int m / 2 :: rat) < 2 ^ 64" using k by simp
  then have "(of_int m / 2 :: rat) < binary64_overflow" by (rule small_below_overflow)
  moreover have h: "(of_int m * 2 powi (- 1) :: rat) = of_int m / 2"
    by (simp add: power_int_minus)
  ultimately have "(of_int m * 2 powi (- 1) :: rat) < binary64_overflow" by (simp only: h)
  from round_binary64_exact [OF k assms(2) _ this] show ?thesis
    by (simp add: h)
qed

text \<open>The quotient 1/49 and its product with 49, as binary64 computes them.\<close>

lemma round_binary64_1_49: "round_binary64 (1 / 49) = Fin (5882252574524729 / 288230376151711744)"
proof -
  have r: "round_half_even (1 / 49 * 2 powi (52 - (- 6))) = 5882252574524729"
    by (rule round_half_even_down) (simp_all add: power_int_def)
  have top: "of_int 5882252574524729 * 2 powi (- 6 - 52) < binary64_overflow"
    by (rule small_below_overflow) (simp add: power_int_minus)
  have "round_binary64 (1 / 49) = Fin (of_int 5882252574524729 * 2 powi (- 6 - 52))"
    by (rule round_binary64_pos [OF _ _ _ _ r top]) (simp_all add: power_int_minus)
  then show ?thesis by (simp add: power_int_minus)
qed

lemma round_binary64_49_times: "round_binary64 (49 * (5882252574524729 / 288230376151711744))
    = Fin (9007199254740991 / 9007199254740992)"
proof -
  have r: "round_half_even (49 * (5882252574524729 / 288230376151711744) * 2 powi (52 - (- 1)))
      = 9007199254740991"
    by (rule round_half_even_down) (simp_all add: power_int_def)
  have top: "of_int 9007199254740991 * 2 powi (- 1 - 52) < binary64_overflow"
    by (rule small_below_overflow) (simp add: power_int_minus)
  have "round_binary64 (49 * (5882252574524729 / 288230376151711744))
      = Fin (of_int 9007199254740991 * 2 powi (- 1 - 52))"
    by (rule round_binary64_pos [OF _ _ _ _ r top]) (simp_all add: power_int_minus)
  then show ?thesis by (simp add: power_int_minus)
qed

lemma round_binary64_numeral:
  "(numeral k :: int) < 2 ^ 53 \<Longrightarrow> round_binary64 (numeral k) = Fin (numeral k)"
  using round_binary64_of_int [of "numeral k"] by simp

lemma round_binary64_one: "round_binary64 1 = Fin 1"
  using round_binary64_of_int [of 1] by simp

lemma int_to_double_exact: "\<bar>i\<bar> < 2 ^ 53 \<Longrightarrow> int_to_double i = Fin (of_int i)"
  unfolding int_to_double_def by (rule round_binary64_of_int)

lemma int_to_double_zero: "int_to_double 0 = Fin 0"
  by (simp add: int_to_double_def)

section \<open>Properties of the slice\<close>

lemma randomIndex_zero: "torflowslice_randomIndex n 0 = 0"
proof (cases "n = 0")
  case True
  then show ?thesis by (simp add: torflowslice_randomIndex_def)
next
  case False
  have m: "int_to_double (int RAND_MAX) = Fin 2147483647"
    by (simp add: RAND_MAX_def int_to_double_exact)
  have q: "ddiv (int_to_double 0) (int_to_double (int RAND_MAX)) = Fin 0"
    by (simp add: m int_to_double_zero)
  have "double_to_guint (dfloor (dmul (Fin 0) d)) = 0" for d
    by (cases d) (simp_all add: double_to_guint_def truncate_rat_def)
  then show ?thesis using False by (simp add: torflowslice_randomIndex_def q Let_def)
qed

lemmas slice_defs =
  torflowslice_chooseRelayPair_def torflowslice_getNumProbesRemaining_def g_hash_table_foreach_def torflowslice_countProbesRemaining_def
  torflowslice_new_def torflowslice_addRelay_def torflowslice_mergeTables_def g_hash_table_replace_def
  torflowslice_getCandidates_def torflowslice_computeMinProbes_def G_MAXUINT_def randomIndex_zero g_queue_peek_nth_def
  g_hash_table_lookup_def

lemmas example_defs =
  entryA_def exitB_def authX_def exitC_def exitA_def sliceNoAuth_def sliceHuge_def sliceAll_def
  sliceExits_def sliceExitsProbed_def sliceShared_def

subsection \<open>Remaining probes\<close>

lemma foreach_countProbesRemaining:
  "numProbesPerRelay s = n \<Longrightarrow>
   g_hash_table_foreach torflowslice_countProbesRemaining t s =
     s\<lparr>totalProbesRemaining := totalProbesRemaining s +
          sum_list (map (\<lambda>(k, c). if c \<ge> n then 0 else n - c) t)\<rparr>"
proof (induction t arbitrary: s)
  case Nil
  then show ?case by (simp add: g_hash_table_foreach_def)
next
  case (Cons a t)
  obtain k c where a: "a = (k, c)" by (cases a)
  have step: "g_hash_table_foreach torflowslice_countProbesRemaining (a # t) s =
      g_hash_table_foreach torflowslice_countProbesRemaining t (torflowslice_countProbesRemaining k c s)"
    by (simp add: g_hash_table_foreach_def a)
  have n: "numProbesPerRelay (torflowslice_countProbesRemaining k c s) = n"
    using Cons.prems by (simp add: torflowslice_countProbesRemaining_def)
  show ?case
    unfolding step Cons.IH [OF n]
    using Cons.prems by (simp add: torflowslice_countProbesRemaining_def a add.assoc)
qed

lemma getNumProbesRemaining_eq:
  "torflowslice_getNumProbesRemaining s =
     (let n = numProbesPerRelay s;
          w = sum_list (map (\<lambda>(k, c). if c \<ge> n then 0 else n - c) (entries s @ exits s))
      in (w, s\<lparr>totalProbesRemaining := w\<rparr>))"
proof -
  define n where "n = numProbesPerRelay s"
  define s0 where "s0 = s\<lparr>totalProbesRemaining := 0\<rparr>"
  define s1 where "s1 = g_hash_table_foreach torflowslice_countProbesRemaining (entries s0) s0"
  have n0: "numProbesPerRelay s0 = n" by (simp add: s0_def n_def)
  have e1: "s1 = s0\<lparr>totalProbesRemaining := totalProbesRemaining s0 +
          sum_list (map (\<lambda>(k, c). if c \<ge> n then 0 else n - c) (entries s0))\<rparr>"
    unfolding s1_def by (rule foreach_countProbesRemaining [OF n0])
  have n1: "numProbesPerRelay s1 = n" by (simp add: e1 n0)
  have e2: "g_hash_table_foreach torflowslice_countProbesRemaining (exits s1) s1 =
     s1\<lparr>totalProbesRemaining := totalProbesRemaining s1 +
          sum_list (map (\<lambda>(k, c). if c \<ge> n then 0 else n - c) (exits s1))\<rparr>"
    by (rule foreach_countProbesRemaining [OF n1])
  have "torflowslice_getNumProbesRemaining s =
      (totalProbesRemaining (g_hash_table_foreach torflowslice_countProbesRemaining (exits s1) s1),
       g_hash_table_foreach torflowslice_countProbesRemaining (exits s1) s1)"
    by (simp add: torflowslice_getNumProbesRemaining_def Let_def s1_def s0_def)
  also have "\<dots> = (let w = sum_list (map (\<lambda>(k, c). if c \<ge> n then 0 else n - c) (entries s @ exits s))
      in (w, s\<lparr>totalProbesRemaining := w\<rparr>))"
    unfolding e2 by (simp add: e1 s0_def Let_def)
  finally show ?thesis unfolding n_def Let_def .
qed

lemma uint_sum_list:
  "uint (sum_list (ws :: guint list)) = sum_list (map uint ws) mod 2 ^ 32"
proof (induction ws)
  case Nil
  then show ?case by simp
next
  case (Cons w ws)
  have "uint (w + sum_list ws) = (uint w + uint (sum_list ws)) mod 2 ^ 32"
    by (simp add: uint_word_ariths)
  also have "\<dots> = (uint w + sum_list (map uint ws) mod 2 ^ 32) mod 2 ^ 32"
    by (simp only: Cons.IH)
  also have "\<dots> = (uint w + sum_list (map uint ws)) mod 2 ^ 32"
    by (simp add: mod_add_right_eq)
  finally show ?case by simp
qed

lemma uint_remaining:
  "uint (if c \<ge> n then 0 else n - c :: guint) = max 0 (uint n - uint c)"
  using uint_sub_lem [of c n] word_le_def [of n c] by (auto simp: max_def)

text \<open>
  Claim C5. \<^verbatim>\<open>torflowslice_getNumProbesRemaining\<close> returns the sum, over the entries and
  the exits, of \<open>max(0, numProbesPerRelay - count)\<close>, reduced modulo \<open>2^32\<close> as the
  \<^verbatim>\<open>guint\<close> accumulator wraps; it is that sum whenever the sum is below \<open>2^32\<close>. The
  authorities contribute nothing: replacing them does not change the result.
\<close>

theorem getNumProbesRemaining_sum_mod:
  "uint (fst (torflowslice_getNumProbesRemaining s)) = probesRemaining_spec s mod 2 ^ 32
   \<and> (probesRemaining_spec s < 2 ^ 32 \<longrightarrow>
        uint (fst (torflowslice_getNumProbesRemaining s)) = probesRemaining_spec s)
   \<and> fst (torflowslice_getNumProbesRemaining (s\<lparr>auths := a\<rparr>)) = fst (torflowslice_getNumProbesRemaining s)"
proof -
  let ?n = "numProbesPerRelay s"
  let ?f = "\<lambda>(k :: string, c). if c \<ge> ?n then 0 else ?n - c"
  have m: "map uint (map ?f t) = map (\<lambda>(key, probes). max 0 (uint ?n - uint probes)) t" for t
    by (induction t) (auto simp: uint_remaining split: prod.splits)
  have "uint (fst (torflowslice_getNumProbesRemaining s)) = uint (sum_list (map ?f (entries s @ exits s)))"
    by (simp add: getNumProbesRemaining_eq Let_def)
  also have "\<dots> = sum_list (map uint (map ?f (entries s @ exits s))) mod 2 ^ 32"
    by (rule uint_sum_list)
  also have "\<dots> = probesRemaining_spec s mod 2 ^ 32"
    unfolding m probesRemaining_spec_def ..
  finally have one: "uint (fst (torflowslice_getNumProbesRemaining s)) = probesRemaining_spec s mod 2 ^ 32" .
  have nonneg: "0 \<le> probesRemaining_spec s"
    unfolding probesRemaining_spec_def by (rule sum_list_nonneg) auto
  have two: "probesRemaining_spec s < 2 ^ 32 \<longrightarrow>
        uint (fst (torflowslice_getNumProbesRemaining s)) = probesRemaining_spec s"
    using one nonneg by simp
  have three: "fst (torflowslice_getNumProbesRemaining (s\<lparr>auths := a\<rparr>)) = fst (torflowslice_getNumProbesRemaining s)"
    by (simp add: getNumProbesRemaining_eq Let_def)
  from one two three show ?thesis by blast
qed

theorem getNumProbesRemaining_sum_mod_witness:
  "probesRemaining_spec sliceAll < 2 ^ 32
   \<and> uint (fst (torflowslice_getNumProbesRemaining sliceAll)) = 4
   \<and> probesRemaining_spec sliceAll = 4"
proof -
  have v: "probesRemaining_spec sliceAll = 4"
    by (simp add: probesRemaining_spec_def example_defs slice_defs)
  then have h: "probesRemaining_spec sliceAll < 2 ^ 32" by simp
  show ?thesis using getNumProbesRemaining_sum_mod [of sliceAll] h v by simp
qed

theorem getNumProbesRemaining_sum_counterexample:
  "uint (fst (torflowslice_getNumProbesRemaining sliceHuge)) = 0 \<and> probesRemaining_spec sliceHuge = 4294967296"
  by (simp add: probesRemaining_spec_def example_defs slice_defs)
subsection \<open>Candidates and the chosen pair\<close>

lemma foreach_computeMinProbes:
  "g_hash_table_foreach torflowslice_computeMinProbes t m = fold min (map snd t) m"
  unfolding g_hash_table_foreach_def
  by (induction t arbitrary: m) (auto simp: torflowslice_computeMinProbes_def min.commute)

lemma fold_min_le_init: "fold min xs (m::guint) \<le> m"
proof (induction xs arbitrary: m)
  case Nil
  show ?case by simp
next
  case (Cons x xs)
  have "fold min xs (min x m) \<le> min x m" by (rule Cons.IH)
  then show ?case by simp
qed

lemma fold_min_le_elem: "x \<in> set xs \<Longrightarrow> fold min xs (m::guint) \<le> x"
proof (induction xs arbitrary: m)
  case Nil
  then show ?case by simp
next
  case (Cons y ys)
  show ?case
  proof (cases "x = y")
    case True
    have "fold min ys (min y m) \<le> min y m" by (rule fold_min_le_init)
    then show ?thesis using True by simp
  next
    case False
    then have "x \<in> set ys" using Cons.prems by simp
    then show ?thesis using Cons.IH by simp
  qed
qed




lemma getCandidates_empty [simp]: "torflowslice_getCandidates [] = []"
  by (simp add: torflowslice_getCandidates_def)

lemma getCandidates_minimal:
  assumes "k \<in> set (torflowslice_getCandidates t)"
  shows "\<exists>c. (k, c) \<in> set t \<and> (\<forall>(k', c') \<in> set t. c \<le> c')"
proof -
  let ?m = "g_hash_table_foreach torflowslice_computeMinProbes t G_MAXUINT"
  have km: "(k, ?m) \<in> set t" using assms by (auto simp: torflowslice_getCandidates_def Let_def)
  have "\<forall>(k', c') \<in> set t. ?m \<le> c'"
  proof (clarify)
    fix k' c' assume "(k', c') \<in> set t"
    then have "c' \<in> set (map snd t)" by force
    then show "?m \<le> c'" unfolding foreach_computeMinProbes by (rule fold_min_le_elem)
  qed
  with km show ?thesis by blast
qed

lemma randomIndex_less: "0 < n \<Longrightarrow> torflowslice_randomIndex n r < n"
  by (auto simp: torflowslice_randomIndex_def Let_def)



lemma update_absent: "k \<notin> fst ` set al \<Longrightarrow> AList.update k v al = al @ [(k, v)]"
  by (induction al) auto





lemma fold_replace_distinct:
  "distinct (map fst (d @ t)) \<Longrightarrow>
   fold (\<lambda>(key, val). g_hash_table_replace key val) t (d, f) = (d @ t, f)"
proof (induction t arbitrary: d)
  case Nil
  then show ?case by simp
next
  case (Cons a t)
  obtain k v where a: "a = (k, v)" by (cases a)
  have absent: "k \<notin> fst ` set d" using Cons.prems by (auto simp: a)
  have dist: "distinct (map fst ((d @ [(k, v)]) @ t))" using Cons.prems by (simp add: a)
  have step: "g_hash_table_replace k v (d, f) = (d @ [(k, v)], f)"
    using absent by (simp add: g_hash_table_replace_def update_absent)
  show ?case using Cons.IH [OF dist] by (simp add: a step)
qed

text \<open>
  When no identity is both in the entries and in the exits, the merged table is the
  entries followed by the exits and the merge frees no key.
\<close>

lemma mergeTables_distinct:
  "distinct (map fst (one @ two)) \<Longrightarrow> torflowslice_mergeTables [] one two = (one @ two, [])"
proof -
  assume d: "distinct (map fst (one @ two))"
  then have "distinct (map fst ([] @ one))" by simp
  then have one: "fold (\<lambda>(key, val). g_hash_table_replace key val) one ([], []) = ([] @ one, [])"
    by (rule fold_replace_distinct)
  show ?thesis
    unfolding torflowslice_mergeTables_def one using fold_replace_distinct [OF d] by simp
qed


lemma getNumProbesRemaining_tables:
  "entries (snd (torflowslice_getNumProbesRemaining s)) = entries s"
  "exits (snd (torflowslice_getNumProbesRemaining s)) = exits s"
  "auths (snd (torflowslice_getNumProbesRemaining s)) = auths s"
  by (simp_all add: getNumProbesRemaining_eq Let_def)



text \<open>
  The call on a slice with live keys and probes remaining, cut at the two choices:
  \<open>target\<close> and \<open>auth\<close> are the identities drawn and \<open>freed\<close> the keys that the merge
  freed.
\<close>

lemma chooseRelayPair_live_unfold:
  fixes s :: TorFlowSlice and r1 r2 :: nat
  assumes rem: "fst (torflowslice_getNumProbesRemaining s) \<noteq> 0"
  defines "sl \<equiv> snd (torflowslice_getNumProbesRemaining s)"
  defines "merged \<equiv> torflowslice_mergeTables [] (entries s) (exits s)"
  defines "target \<equiv> g_queue_peek_nth (torflowslice_getCandidates (fst merged))
     (torflowslice_randomIndex (length (torflowslice_getCandidates (fst merged))) r1)"
  defines "auth \<equiv> g_queue_peek_nth (torflowslice_getCandidates (auths s))
     (torflowslice_randomIndex (length (torflowslice_getCandidates (auths s))) r2)"
  shows "torflowslice_chooseRelayPair r1 r2 (KeysLive s) =
     (case (target, auth) of
        (Some targetID, Some authID) \<Rightarrow>
          if g_str_hash targetID \<in> set (map g_str_hash (snd merged)) then UseAfterFree
          else if g_hash_table_lookup (entries s) targetID \<noteq> 0
            then Returns (Some (Freed targetID, Live authID))
                   (KeysFreed (sl\<lparr>entries := AList.update targetID
                      (g_hash_table_lookup (entries s) targetID + 1)
                      (AList.delete targetID (entries s))\<rparr>))
            else Returns (Some (Live authID, Freed targetID))
                   (KeysFreed (sl\<lparr>exits := AList.update targetID
                      (g_hash_table_lookup (exits s) targetID + 1)
                      (AList.delete targetID (exits s))\<rparr>))
      | _ \<Rightarrow> Returns None (if snd merged = [] then KeysLive sl else KeysFreed sl))"
proof -
  obtain remaining where g: "torflowslice_getNumProbesRemaining s = (remaining, sl)"
    unfolding sl_def by (cases "torflowslice_getNumProbesRemaining s") simp
  have r0: "remaining \<noteq> 0" using rem by (simp add: g)
  have tabs: "entries sl = entries s" "exits sl = exits s" "auths sl = auths s"
    unfolding sl_def by (rule getNumProbesRemaining_tables)+
  obtain targets freed where m: "torflowslice_mergeTables [] (entries s) (exits s) = (targets, freed)"
    by (cases "torflowslice_mergeTables [] (entries s) (exits s)")
  have mm: "merged = (targets, freed)" by (simp add: merged_def m)
  show ?thesis
    unfolding target_def auth_def mm
    using r0
    by (simp add: torflowslice_chooseRelayPair_def g tabs m Let_def
        split: option.splits)
qed




text \<open>
  Claim C3. The slice \<open>sliceAll\<close> has the entry A, the exit B and the authority X, all
  with probe count 0. When the draw picks A, the lookup of A in the entries gives the
  count 0, which is the pointer \<^verbatim>\<open>NULL\<close>, so \<^verbatim>\<open>measureEntry\<close> is false: the counter
  of A in the entries stays 0, a new counter for A appears in the exits with value 1, and
  A is returned as the exit of the pair. The key A, which the two tables now share, is
  freed with the other keys of \<^verbatim>\<open>targets\<close>.
\<close>

theorem chooseRelayPair_entry_counter_eval:
  "torflowslice_chooseRelayPair 0 0 (KeysLive sliceAll) =
     Returns (Some (Live ''X'', Freed ''A''))
       (KeysFreed \<lparr>sliceID = 0, percentile = 0, numProbesPerRelay = 2, totalProbesRemaining = 4,
          relayIDSearch = None, relayIDFound = False,
          entries = [(''A'', 0)], exits = [(''B'', 0), (''A'', 1)], auths = [(''X'', 0)]\<rparr>)
   \<and> entries sliceAll = [(''A'', 0)] \<and> exits sliceAll = [(''B'', 0)] \<and> auths sliceAll = [(''X'', 0)]"
  by (simp add: example_defs slice_defs)

text \<open>
  The same in general: when the target drawn is in the entries with count 0 and not in the
  exits, the entries are left as they were, the exits gain the target with count 1, and
  the target is returned as the exit of the pair.
\<close>

lemma chooseRelayPair_zero_entry:
  assumes ok: "torflowslice_chooseRelayPair r1 r2 (KeysLive s) = Returns (Some (e, x)) st'"
    and t: "Freed t \<in> {e, x}"
    and zero: "map_of (entries s) t = Some 0"
    and nx: "t \<notin> fst ` set (exits s)"
  shows "x = Freed t \<and> (\<exists>s'. st' = KeysFreed s' \<and> entries s' = entries s
           \<and> exits s' = exits s @ [(t, 1)] \<and> auths s' = auths s)"
proof -
  have rem: "fst (torflowslice_getNumProbesRemaining s) \<noteq> 0"
    using ok
    by (cases "torflowslice_getNumProbesRemaining s")
      (auto simp: torflowslice_chooseRelayPair_def split: if_splits)
  have le: "g_hash_table_lookup (entries s) t = 0"
    using zero by (simp add: g_hash_table_lookup_def)
  have "map_of (exits s) t = None" using nx by (simp add: map_of_eq_None_iff)
  then have lx: "g_hash_table_lookup (exits s) t = 0"
    by (simp add: g_hash_table_lookup_def)
  have del: "AList.delete t (exits s) = exits s"
    using nx by (simp add: delete_id)
  have upd: "AList.update t 1 (exits s) = exits s @ [(t, 1)]"
    using nx by (rule update_absent)
  show ?thesis
    using ok t
    unfolding chooseRelayPair_live_unfold [OF rem]
    by (auto simp: le lx del upd getNumProbesRemaining_tables
        split: option.splits if_splits)
qed

text \<open>
  On a slice whose keys are live and whose entries and exits share no identity, the
  target of a successful call has the least probe count of the two tables.
\<close>

lemma chooseRelayPair_live_minimal:
  assumes d: "distinct (map fst (entries s @ exits s))"
    and ok: "torflowslice_chooseRelayPair r1 r2 (KeysLive s) = Returns (Some (e, x)) st'"
  shows "\<exists>t a c. {e, x} = {Freed t, Live a} \<and> map_of (entries s @ exits s) t = Some c
           \<and> c = Min (snd ` set (entries s @ exits s))"
proof -
  let ?merged = "torflowslice_mergeTables [] (entries s) (exits s)"
  let ?target = "g_queue_peek_nth (torflowslice_getCandidates (fst ?merged))
     (torflowslice_randomIndex (length (torflowslice_getCandidates (fst ?merged))) r1)"
  let ?auth = "g_queue_peek_nth (torflowslice_getCandidates (auths s))
     (torflowslice_randomIndex (length (torflowslice_getCandidates (auths s))) r2)"
  have rem: "fst (torflowslice_getNumProbesRemaining s) \<noteq> 0"
    using ok
    by (cases "torflowslice_getNumProbesRemaining s")
      (auto simp: torflowslice_chooseRelayPair_def split: if_splits)
  have m: "?merged = (entries s @ exits s, [])" by (rule mergeTables_distinct [OF d])
  obtain t a where t: "?target = Some t" and a: "?auth = Some a"
    and p: "{e, x} = {Freed t, Live a}"
    using ok unfolding chooseRelayPair_live_unfold [OF rem]
    by (auto split: option.splits if_splits)
  have "t \<in> set (torflowslice_getCandidates (entries s @ exits s))"
    using t unfolding m by (auto simp: g_queue_peek_nth_def split: if_splits)
  then obtain c where c: "(t, c) \<in> set (entries s @ exits s)"
    and least: "\<forall>(k', c') \<in> set (entries s @ exits s). c \<le> c'"
    using getCandidates_minimal by blast
  have look: "map_of (entries s @ exits s) t = Some c"
    using d c by (simp only: map_of_eq_Some_iff)
  have "Min (snd ` set (entries s @ exits s)) = c"
  proof (rule Min_eqI)
    show "finite (snd ` set (entries s @ exits s))" by simp
    show "c \<in> snd ` set (entries s @ exits s)" using c by force
    fix y assume "y \<in> snd ` set (entries s @ exits s)"
    then show "c \<le> y" using least by auto
  qed
  with look p show ?thesis by blast
qed

text \<open>
  A call that returns a pair was made on a slice with live keys and leaves the keys
  freed: a later call on the slice, made while probes remain, does not return.
\<close>

lemma chooseRelayPair_success_frees_keys:
  assumes ok: "torflowslice_chooseRelayPair r1 r2 st = Returns (Some p) st'"
  shows "\<exists>s s'. st = KeysLive s \<and> st' = KeysFreed s'
           \<and> torflowslice_chooseRelayPair r3 r4 st' =
               (if fst (torflowslice_getNumProbesRemaining s') = 0
                then Returns None (KeysFreed (snd (torflowslice_getNumProbesRemaining s')))
                else UseAfterFree)"
proof (cases st)
  case (KeysFreed s)
  then show ?thesis
    using ok
    by (cases "torflowslice_getNumProbesRemaining s")
      (auto simp: torflowslice_chooseRelayPair_def split: if_splits)
next
  case (KeysLive s)
  have rem: "fst (torflowslice_getNumProbesRemaining s) \<noteq> 0"
    using ok unfolding KeysLive
    by (cases "torflowslice_getNumProbesRemaining s")
      (auto simp: torflowslice_chooseRelayPair_def split: if_splits)
  obtain s' where s': "st' = KeysFreed s'"
    using ok unfolding KeysLive chooseRelayPair_live_unfold [OF rem]
    by (auto split: option.splits if_splits)
  have "torflowslice_chooseRelayPair r3 r4 (KeysFreed s') =
       (if fst (torflowslice_getNumProbesRemaining s') = 0
        then Returns None (KeysFreed (snd (torflowslice_getNumProbesRemaining s')))
        else UseAfterFree)"
    by (cases "torflowslice_getNumProbesRemaining s'") (simp add: torflowslice_chooseRelayPair_def)
  then show ?thesis using KeysLive s' by simp
qed


text \<open>
  An identity both in the entries and in the exits: the merge frees the key of the
  entries, and the lookup of the target in the entries reads it.
\<close>

lemma chooseRelayPair_shared_eval:
  "entries sliceShared = [(''A'', 0)] \<and> exits sliceShared = [(''A'', 0)]
   \<and> torflowslice_mergeTables [] (entries sliceShared) (exits sliceShared) = ([(''A'', 0)], [''A''])
   \<and> torflowslice_chooseRelayPair r1 r2 (KeysLive sliceShared) = UseAfterFree"
proof -
  have t: "entries sliceShared = [(''A'', 0)]" "exits sliceShared = [(''A'', 0)]"
    "auths sliceShared = [(''X'', 0)]"
    by (simp_all add: example_defs slice_defs)
  have m: "torflowslice_mergeTables [] (entries sliceShared) (exits sliceShared) = ([(''A'', 0)], [''A''])"
    by (simp add: t torflowslice_mergeTables_def g_hash_table_replace_def)
  have rem: "fst (torflowslice_getNumProbesRemaining sliceShared) \<noteq> 0"
    by (simp add: example_defs slice_defs)
  have i: "torflowslice_randomIndex (Suc 0) r = 0" for r
    using randomIndex_less [of "Suc 0" r] by simp
  have "torflowslice_chooseRelayPair r1 r2 (KeysLive sliceShared) = UseAfterFree"
    unfolding chooseRelayPair_live_unfold [OF rem] m
    by (simp add: t torflowslice_getCandidates_def g_hash_table_foreach_def
        torflowslice_computeMinProbes_def G_MAXUINT_def g_queue_peek_nth_def i)
  with t m show ?thesis by simp
qed

subsection \<open>Membership\<close>

lemma ascii_strcasecmp_refl: "g_ascii_strcasecmp x x = 0"
  by (induction x) (simp_all add: Let_def)

lemma of_char_zero: "(of_char y :: nat) = 0 \<longleftrightarrow> y = CHR 0x00"
proof
  assume "(of_char y :: nat) = 0"
  then have "(of_char y :: nat) = of_char (CHR 0x00)" by simp
  then show "y = CHR 0x00" by (simp only: of_char_eq_iff)
next
  assume "y = CHR 0x00"
  then show "(of_char y :: nat) = 0" by simp
qed

text \<open>
  On strings without the character NUL, \<^verbatim>\<open>g_ascii_strcasecmp\<close> is 0 exactly for strings
  that are equal after folding the letters A to Z to lower case.
\<close>

lemma g_ascii_strcasecmp_zero_iff:
  assumes "CHR 0x00 \<notin> set a" and "CHR 0x00 \<notin> set b"
  shows "g_ascii_strcasecmp a b = 0 \<longleftrightarrow> map TOLOWER a = map TOLOWER b"
  using assms
proof (induction a b rule: g_ascii_strcasecmp.induct)
  case (1 x s1 y s2)
  then show ?case by (auto simp: Let_def)
next
  case 2
  show ?case by simp
next
  case (3 y s2)
  then have "y \<noteq> CHR 0x00" by auto
  then have "(of_char y :: nat) \<noteq> 0" by (simp add: of_char_zero)
  then show ?case by simp
next
  case (4 x s1)
  then have "x \<noteq> CHR 0x00" by auto
  then have "(of_char x :: nat) \<noteq> 0" by (simp add: of_char_zero)
  then show ?case by simp
qed

lemma foreach_FindRelayID:
  "relayIDSearch s = Some q \<Longrightarrow>
   g_hash_table_foreach torflowslice_FindRelayID t s =
     s\<lparr>relayIDFound := relayIDFound s \<or> (\<exists>k \<in> fst ` set t. g_ascii_strcasecmp k q = 0)\<rparr>"
proof (induction t arbitrary: s)
  case Nil
  then show ?case by (simp add: g_hash_table_foreach_def)
next
  case (Cons a t)
  obtain k v where a: "a = (k, v)" by (cases a)
  have step: "g_hash_table_foreach torflowslice_FindRelayID (a # t) s =
      g_hash_table_foreach torflowslice_FindRelayID t (torflowslice_FindRelayID k v s)"
    by (simp add: g_hash_table_foreach_def a)
  have q: "relayIDSearch (torflowslice_FindRelayID k v s) = Some q"
    using Cons.prems by (simp add: torflowslice_FindRelayID_def)
  show ?case
    unfolding step Cons.IH [OF q]
    using Cons.prems by (auto simp: torflowslice_FindRelayID_def a)
qed

lemma searchAndCache_eq:
  "searchAndCache s q =
     (let found = (\<exists>k \<in> fst ` set (entries s) \<union> fst ` set (exits s). g_ascii_strcasecmp k q = 0)
      in (found, s\<lparr>relayIDSearch := Some q, relayIDFound := found\<rparr>))"
proof -
  define s0 where "s0 = s\<lparr>relayIDSearch := Some q, relayIDFound := False\<rparr>"
  define s1 where "s1 = g_hash_table_foreach torflowslice_FindRelayID (entries s0) s0"
  have q0: "relayIDSearch s0 = Some q" by (simp add: s0_def)
  have e1: "s1 = s0\<lparr>relayIDFound := relayIDFound s0 \<or> (\<exists>k \<in> fst ` set (entries s0). g_ascii_strcasecmp k q = 0)\<rparr>"
    unfolding s1_def by (rule foreach_FindRelayID [OF q0])
  have q1: "relayIDSearch s1 = Some q" by (simp add: e1 q0)
  have e2: "g_hash_table_foreach torflowslice_FindRelayID (exits s1) s1 =
      s1\<lparr>relayIDFound := relayIDFound s1 \<or> (\<exists>k \<in> fst ` set (exits s1). g_ascii_strcasecmp k q = 0)\<rparr>"
    by (rule foreach_FindRelayID [OF q1])
  define E where "E = (\<exists>k \<in> fst ` set (entries s). g_ascii_strcasecmp k q = 0)"
  define X where "X = (\<exists>k \<in> fst ` set (exits s). g_ascii_strcasecmp k q = 0)"
  have f: "(\<exists>k \<in> fst ` set (entries s) \<union> fst ` set (exits s). g_ascii_strcasecmp k q = 0) = (E \<or> X)"
    unfolding E_def X_def by blast
  have s1: "s1 = s\<lparr>relayIDSearch := Some q, relayIDFound := E\<rparr>"
    by (simp add: e1 s0_def E_def)
  have sc: "searchAndCache s q =
     (let s2 = (if \<not> relayIDFound s1 then g_hash_table_foreach torflowslice_FindRelayID (exits s1) s1 else s1)
      in (relayIDFound s2, s2))"
    by (simp add: searchAndCache_def Let_def s1_def s0_def)
  show ?thesis
  proof (cases E)
    case True
    then show ?thesis unfolding sc f Let_def by (simp add: s1)
  next
    case False
    have "g_hash_table_foreach torflowslice_FindRelayID (exits s1) s1 = s\<lparr>relayIDSearch := Some q, relayIDFound := X\<rparr>"
      unfolding e2 using False by (simp add: s1 X_def)
    then show ?thesis unfolding sc f Let_def using False by (simp add: s1)
  qed
qed

lemma contains_miss:
  assumes "case relayIDSearch s of None \<Rightarrow> True | Some cached \<Rightarrow> g_ascii_strcasecmp q cached \<noteq> 0"
  shows "torflowslice_contains s (Some q) =
     (let found = (\<exists>k \<in> fst ` set (entries s) \<union> fst ` set (exits s). g_ascii_strcasecmp k q = 0)
      in (found, s\<lparr>relayIDSearch := Some q, relayIDFound := found\<rparr>))"
  using assms
  by (auto simp: torflowslice_contains_def searchAndCache_eq Let_def split: option.splits)

lemma contains_hit:
  assumes "relayIDSearch s = Some cached" "g_ascii_strcasecmp q cached = 0"
  shows "torflowslice_contains s (Some q) = (relayIDFound s, s)"
  using assms by (simp add: torflowslice_contains_def)

lemma contains_then_hit:
  "\<exists>cached. relayIDSearch (snd (torflowslice_contains s (Some q))) = Some cached \<and> g_ascii_strcasecmp q cached = 0
     \<and> relayIDFound (snd (torflowslice_contains s (Some q))) = fst (torflowslice_contains s (Some q))"
proof (cases "case relayIDSearch s of None \<Rightarrow> True | Some cached \<Rightarrow> g_ascii_strcasecmp q cached \<noteq> 0")
  case True
  then show ?thesis by (simp add: contains_miss Let_def ascii_strcasecmp_refl)
next
  case False
  then obtain cached where "relayIDSearch s = Some cached" "g_ascii_strcasecmp q cached = 0"
    by (auto split: option.splits)
  then show ?thesis by (simp add: contains_hit)
qed

lemma addRelay_cache:
  "relayIDSearch (torflowslice_addRelay s r ome) = relayIDSearch s"
  "relayIDFound (torflowslice_addRelay s r ome) = relayIDFound s"
  by (simp_all add: torflowslice_addRelay_def Let_def)

lemma addRelay_keys:
  "\<not> relay_isAuth r \<Longrightarrow>
     relay_identity r \<in> fst ` set (entries (torflowslice_addRelay s r False)) \<union> fst ` set (exits (torflowslice_addRelay s r False))"
  by (auto simp: torflowslice_addRelay_def Let_def dom_update)

lemma built_cache:
  "relayIDSearch (fold (\<lambda>(r, ome) sl. torflowslice_addRelay sl r ome) rs s) = relayIDSearch s"
  by (induction rs arbitrary: s) (auto simp: addRelay_cache)

lemma addRelay_keys_subset:
  "fst ` set (entries (torflowslice_addRelay s r ome)) \<union> fst ` set (exits (torflowslice_addRelay s r ome))
     \<subseteq> insert (relay_identity r) (fst ` set (entries s) \<union> fst ` set (exits s))"
proof -
  have u: "fst ` set (AList.update k v al) = insert k (fst ` set al)" for k and v :: guint and al
    by (simp add: dom_update)
  consider "relay_isAuth r" | "\<not> relay_isAuth r" "relay_isExit r"
    | "\<not> relay_isAuth r" "\<not> relay_isExit r" "\<not> ome"
    | "\<not> relay_isAuth r" "\<not> relay_isExit r" "ome"
    by blast
  then show ?thesis
  proof cases
    case 1
    then show ?thesis by (simp add: torflowslice_addRelay_def subset_insertI)
  next
    case 2
    then show ?thesis by (simp add: torflowslice_addRelay_def u, blast?)
  next
    case 3
    then show ?thesis by (simp add: torflowslice_addRelay_def u, blast?)
  next
    case 4
    then show ?thesis by (simp add: torflowslice_addRelay_def subset_insertI)
  qed
qed

lemma built_keys_subset:
  "fst ` set (entries (fold (\<lambda>(r, ome) sl. torflowslice_addRelay sl r ome) rs s))
     \<union> fst ` set (exits (fold (\<lambda>(r, ome) sl. torflowslice_addRelay sl r ome) rs s))
   \<subseteq> (relay_identity \<circ> fst) ` set rs \<union> (fst ` set (entries s) \<union> fst ` set (exits s))"
proof (induction rs arbitrary: s)
  case Nil
  show ?case by simp
next
  case (Cons a rs)
  obtain r ome where a: "a = (r, ome)" by (cases a)
  define K where "K = (\<lambda>sl :: TorFlowSlice. fst ` set (entries sl) \<union> fst ` set (exits sl))"
  define s' where "s' = torflowslice_addRelay s r ome"
  define b where "b = fold (\<lambda>(r, ome) sl. torflowslice_addRelay sl r ome) rs s'"
  have ih: "K b \<subseteq> (relay_identity \<circ> fst) ` set rs \<union> K s'"
    unfolding K_def b_def by (rule Cons.IH)
  have st: "K s' \<subseteq> insert (relay_identity r) (K s)"
    unfolding K_def s'_def by (rule addRelay_keys_subset)
  have ids: "(relay_identity \<circ> fst) ` set (a # rs) = insert (relay_identity r) ((relay_identity \<circ> fst) ` set rs)"
    by (simp add: a)
  have fo: "fold (\<lambda>(r, ome) sl. torflowslice_addRelay sl r ome) (a # rs) s = b"
    by (simp add: a b_def s'_def)
  have "K b \<subseteq> (relay_identity \<circ> fst) ` set (a # rs) \<union> K s"
    unfolding ids using ih st by blast
  then show ?case unfolding fo K_def .
qed

lemmas contains_defs =
  torflowslice_contains_def searchAndCache_def torflowslice_FindRelayID_def g_hash_table_foreach_def TOLOWER_def
  torflowslice_new_def torflowslice_addRelay_def

text \<open>
  Claim C10. \<^verbatim>\<open>torflowslice_contains\<close> returns \<^verbatim>\<open>FALSE\<close> for the identity \<^verbatim>\<open>NULL\<close>
  and leaves the slice as it is. For an identity that the one-slot cache does not answer
  (the cache is empty, or holds a string that differs from the identity beyond ASCII
  letter case), it returns true exactly when some key of the entries or of the exits
  compares equal to the identity under \<^verbatim>\<open>g_ascii_strcasecmp\<close>. For an identity that the
  cache answers, it returns the cached answer.
\<close>

theorem contains_caseless:
  "torflowslice_contains s None = (False, s)
   \<and> ((case relayIDSearch s of None \<Rightarrow> True | Some cached \<Rightarrow> g_ascii_strcasecmp q cached \<noteq> 0) \<longrightarrow>
        (fst (torflowslice_contains s (Some q)) \<longleftrightarrow>
           (\<exists>k \<in> fst ` set (entries s) \<union> fst ` set (exits s). g_ascii_strcasecmp k q = 0)))
   \<and> (\<forall>cached. relayIDSearch s = Some cached \<and> g_ascii_strcasecmp q cached = 0 \<longrightarrow>
        fst (torflowslice_contains s (Some q)) = relayIDFound s)"
proof -
  have one: "torflowslice_contains s None = (False, s)" by (simp add: torflowslice_contains_def)
  have two: "(case relayIDSearch s of None \<Rightarrow> True | Some cached \<Rightarrow> g_ascii_strcasecmp q cached \<noteq> 0) \<longrightarrow>
        (fst (torflowslice_contains s (Some q)) \<longleftrightarrow>
           (\<exists>k \<in> fst ` set (entries s) \<union> fst ` set (exits s). g_ascii_strcasecmp k q = 0))"
    by (simp add: contains_miss Let_def)
  have three: "\<forall>cached. relayIDSearch s = Some cached \<and> g_ascii_strcasecmp q cached = 0 \<longrightarrow>
        fst (torflowslice_contains s (Some q)) = relayIDFound s"
    by (simp add: contains_hit)
  from one two three show ?thesis by blast
qed

theorem contains_caseless_witness:
  "fst (torflowslice_contains (torflowslice_addRelay (torflowslice_new 0 0 1) exitMixed False) (Some ''aBc9''))
   \<and> \<not> fst (torflowslice_contains (torflowslice_addRelay (torflowslice_new 0 0 1) exitMixed False) (Some ''aBc8''))
   \<and> relayIDSearch sliceAskedB = Some ''b'' \<and> g_ascii_strcasecmp ''B'' ''b'' = 0
   \<and> fst (torflowslice_contains sliceAskedB (Some ''B'')) = relayIDFound sliceAskedB"
proof -
  let ?s = "torflowslice_addRelay (torflowslice_new 0 0 1) exitMixed False"
  have miss: "case relayIDSearch ?s of None \<Rightarrow> True | Some cached \<Rightarrow> g_ascii_strcasecmp q cached \<noteq> 0" for q
    by (simp add: addRelay_cache torflowslice_new_def)
  have k: "fst ` set (entries ?s) \<union> fst ` set (exits ?s) = {''AbC9''}"
    by (simp add: torflowslice_addRelay_def torflowslice_new_def exitMixed_def)
  have c1: "g_ascii_strcasecmp ''AbC9'' ''aBc9'' = 0" by (simp add: TOLOWER_def)
  have c2: "g_ascii_strcasecmp ''AbC9'' ''aBc8'' \<noteq> 0" by (simp add: TOLOWER_def)
  have h1: "relayIDSearch sliceAskedB = Some ''b''"
    by (simp add: sliceAskedB_def addRelay_cache torflowslice_contains_def searchAndCache_eq torflowslice_new_def)
  have h2: "g_ascii_strcasecmp ''B'' ''b'' = 0" by (simp add: TOLOWER_def)
  show ?thesis
    using contains_caseless [of ?s "''aBc9''"] contains_caseless [of ?s "''aBc8''"]
      contains_caseless [of sliceAskedB "''B''"] miss k c1 c2 h1 h2
    by simp
qed

theorem contains_caseless_counterexample:
  "exits sliceAskedB = [(''B'', 0)] \<and> g_ascii_strcasecmp ''B'' ''B'' = 0
   \<and> fst (torflowslice_contains sliceAskedB (Some ''B'')) = False"
  by (simp add: sliceAskedB_def contains_defs exitB_def)

text \<open>
  Claim C9. After \<^verbatim>\<open>torflowslice_addRelay(r, false)\<close> of a relay that is no authority,
  \<^verbatim>\<open>torflowslice_contains\<close> of its identity is true unless the cache of the slice holds, from the
  last query before the insertion, the answer false for that identity up to ASCII letter
  case. On a slice built from \<^verbatim>\<open>torflowslice_new\<close> by insertions of relays none of
  which has the identity up to letter case, it is false. A second call with the same
  identity returns the result of the first and the same slice, and its answer does not
  depend on the tables: it comes from the cache.
\<close>

theorem contains_roundtrip:
  "(\<not> relay_isAuth r \<longrightarrow>
      (fst (torflowslice_contains (torflowslice_addRelay s r False) (Some (relay_identity r))) \<longleftrightarrow>
         \<not> (\<exists>cached. relayIDSearch s = Some cached
               \<and> g_ascii_strcasecmp (relay_identity r) cached = 0 \<and> \<not> relayIDFound s)))
   \<and> ((\<forall>(r', ome) \<in> set rs. g_ascii_strcasecmp (relay_identity r') q \<noteq> 0) \<longrightarrow>
        \<not> fst (torflowslice_contains (fold (\<lambda>(r', ome) sl. torflowslice_addRelay sl r' ome) rs (torflowslice_new i p n)) (Some q)))
   \<and> torflowslice_contains (snd (torflowslice_contains s (Some q))) (Some q) = torflowslice_contains s (Some q)
   \<and> fst (torflowslice_contains ((snd (torflowslice_contains s (Some q)))\<lparr>entries := e, exits := x\<rparr>) (Some q))
        = fst (torflowslice_contains s (Some q))"
proof -
  have one: "fst (torflowslice_contains (torflowslice_addRelay s r False) (Some (relay_identity r))) \<longleftrightarrow>
         \<not> (\<exists>cached. relayIDSearch s = Some cached
               \<and> g_ascii_strcasecmp (relay_identity r) cached = 0 \<and> \<not> relayIDFound s)"
    if r: "\<not> relay_isAuth r"
  proof (cases "case relayIDSearch s of None \<Rightarrow> True
                | Some cached \<Rightarrow> g_ascii_strcasecmp (relay_identity r) cached \<noteq> 0")
    case True
    then have miss: "case relayIDSearch (torflowslice_addRelay s r False) of None \<Rightarrow> True
                | Some cached \<Rightarrow> g_ascii_strcasecmp (relay_identity r) cached \<noteq> 0"
      by (simp add: addRelay_cache)
    have "\<exists>k \<in> fst ` set (entries (torflowslice_addRelay s r False)) \<union> fst ` set (exits (torflowslice_addRelay s r False)).
             g_ascii_strcasecmp k (relay_identity r) = 0"
      using addRelay_keys [OF r, of s] ascii_strcasecmp_refl [of "relay_identity r"] by blast
    then have yes: "fst (torflowslice_contains (torflowslice_addRelay s r False) (Some (relay_identity r)))"
      by (simp add: contains_miss [OF miss] Let_def)
    have "\<not> (\<exists>cached. relayIDSearch s = Some cached
               \<and> g_ascii_strcasecmp (relay_identity r) cached = 0 \<and> \<not> relayIDFound s)"
    proof (cases "relayIDSearch s")
      case None
      then show ?thesis by simp
    next
      case (Some c)
      then have "g_ascii_strcasecmp (relay_identity r) c \<noteq> 0" using True by simp
      then show ?thesis using Some by simp
    qed
    with yes show ?thesis by simp
  next
    case False
    then obtain cached where c: "relayIDSearch s = Some cached"
      "g_ascii_strcasecmp (relay_identity r) cached = 0"
      by (auto split: option.splits)
    have "fst (torflowslice_contains (torflowslice_addRelay s r False) (Some (relay_identity r))) = relayIDFound s"
      using c by (simp add: contains_hit [of _ cached] addRelay_cache)
    then show ?thesis using c by simp
  qed
  have two: "\<not> fst (torflowslice_contains (fold (\<lambda>(r', ome) sl. torflowslice_addRelay sl r' ome) rs (torflowslice_new i p n)) (Some q))"
    if no: "\<forall>(r', ome) \<in> set rs. g_ascii_strcasecmp (relay_identity r') q \<noteq> 0"
  proof -
    let ?b = "fold (\<lambda>(r', ome) sl. torflowslice_addRelay sl r' ome) rs (torflowslice_new i p n)"
    have cache: "relayIDSearch ?b = None"
      by (simp add: built_cache torflowslice_new_def)
    have "fst ` set (entries ?b) \<union> fst ` set (exits ?b) \<subseteq> (relay_identity \<circ> fst) ` set rs"
      using built_keys_subset [of rs "torflowslice_new i p n"]
      by (simp add: torflowslice_new_def)
    then have sub: "k \<in> (relay_identity \<circ> fst) ` set rs"
      if "k \<in> fst ` set (entries ?b) \<union> fst ` set (exits ?b)" for k
      using that by (rule subsetD)
    have none: "\<not> (\<exists>k \<in> fst ` set (entries ?b) \<union> fst ` set (exits ?b). g_ascii_strcasecmp k q = 0)"
    proof
      assume "\<exists>k \<in> fst ` set (entries ?b) \<union> fst ` set (exits ?b). g_ascii_strcasecmp k q = 0"
      then obtain k where k: "k \<in> fst ` set (entries ?b) \<union> fst ` set (exits ?b)"
        and z: "g_ascii_strcasecmp k q = 0" by (rule bexE)
      from sub [OF k] obtain a where a: "a \<in> set rs" and ka: "k = relay_identity (fst a)"
        by auto
      obtain r' ome where ra: "a = (r', ome)" by (cases a)
      have "g_ascii_strcasecmp (relay_identity r') q \<noteq> 0" using no a ra by blast
      then show False using z ka ra by simp
    qed
    have miss: "case relayIDSearch ?b of None \<Rightarrow> True | Some cached \<Rightarrow> g_ascii_strcasecmp q cached \<noteq> 0"
      by (simp add: cache)
    show ?thesis unfolding contains_miss [OF miss] Let_def using none by simp
  qed
  obtain cached where c: "relayIDSearch (snd (torflowslice_contains s (Some q))) = Some cached"
    "g_ascii_strcasecmp q cached = 0"
    "relayIDFound (snd (torflowslice_contains s (Some q))) = fst (torflowslice_contains s (Some q))"
    using contains_then_hit [of s q] by blast
  have three: "torflowslice_contains (snd (torflowslice_contains s (Some q))) (Some q) = torflowslice_contains s (Some q)"
    using c by (simp add: contains_hit [of _ cached] prod_eq_iff)
  have four: "fst (torflowslice_contains ((snd (torflowslice_contains s (Some q)))\<lparr>entries := e, exits := x\<rparr>) (Some q))
        = fst (torflowslice_contains s (Some q))"
    using c by (simp add: contains_hit [of _ cached])
  show ?thesis
  proof (intro conjI impI)
    assume "\<not> relay_isAuth r"
    then show "fst (torflowslice_contains (torflowslice_addRelay s r False) (Some (relay_identity r))) \<longleftrightarrow>
         \<not> (\<exists>cached. relayIDSearch s = Some cached
               \<and> g_ascii_strcasecmp (relay_identity r) cached = 0 \<and> \<not> relayIDFound s)"
      by (rule one)
  next
    assume "\<forall>(r', ome) \<in> set rs. g_ascii_strcasecmp (relay_identity r') q \<noteq> 0"
    then show "\<not> fst (torflowslice_contains (fold (\<lambda>(r', ome) sl. torflowslice_addRelay sl r' ome) rs (torflowslice_new i p n)) (Some q))"
      by (rule two)
  next
    show "torflowslice_contains (snd (torflowslice_contains s (Some q))) (Some q) = torflowslice_contains s (Some q)" by (rule three)
  next
    show "fst (torflowslice_contains ((snd (torflowslice_contains s (Some q)))\<lparr>entries := e, exits := x\<rparr>) (Some q))
        = fst (torflowslice_contains s (Some q))" by (rule four)
  qed
qed

theorem contains_roundtrip_counterexample:
  "entries sliceAskedA = [(''A'', 0)] \<and> relay_identity entryA = ''A''
   \<and> fst (torflowslice_contains sliceAskedA (Some (relay_identity entryA))) = False"
  by (simp add: sliceAskedA_def contains_defs entryA_def)

theorem contains_roundtrip_witness:
  "\<not> relay_isAuth entryA
   \<and> fst (torflowslice_contains (torflowslice_addRelay (torflowslice_new 0 0 1) entryA False) (Some (relay_identity entryA)))
   \<and> g_ascii_strcasecmp (relay_identity exitB) ''A'' \<noteq> 0
   \<and> \<not> fst (torflowslice_contains (fold (\<lambda>(r', ome) sl. torflowslice_addRelay sl r' ome) [(exitB, False)] (torflowslice_new 0 0 1)) (Some ''A''))"
proof -
  have h1: "\<not> relay_isAuth entryA" by (simp add: entryA_def)
  have h2: "relayIDSearch (torflowslice_new 0 0 1) = None" by (simp add: torflowslice_new_def)
  have h3: "\<forall>(r', ome) \<in> set [(exitB, False)]. g_ascii_strcasecmp (relay_identity r') ''A'' \<noteq> 0"
    by (simp add: exitB_def TOLOWER_def)
  show ?thesis
    using contains_roundtrip [of entryA "torflowslice_new 0 0 1" "[(exitB, False)]" "''A''" 0 0 1]
      h1 h2 h3
    by simp
qed

section \<open>Properties of the aggregator\<close>

lemma round_binary64_half_1: "round_binary64 (1 / 2) = Fin (1 / 2)"
  using round_binary64_half [of 1] by simp

lemma round_binary64_half_3: "round_binary64 (3 / 2) = Fin (3 / 2)"
  using round_binary64_half [of 3] by simp

lemmas aggregator_defs =
  torflowaggregator_printToFile_def redistribute_def totalBandwidths_def computeNewBandwidth_def
  int_to_double_zero int_to_double_exact round_binary64_numeral round_binary64_one
  round_binary64_half_1 round_binary64_half_3 gint_wrap_def
  double_to_gint_def truncate_rat_def torflowaggregator_reportInitial_def initialStats_def
  torflowaggregator_new_def show_int_def digit_def newline_def Let_def

subsection \<open>The version counter and the link steps\<close>

lemma printToFile_version: "version (fst (torflowaggregator_printToFile env tfa)) = version tfa + 1"
  by (simp add: torflowaggregator_printToFile_def Let_def split: prod.splits)

lemma printToFile_outFile:
  "outFile (snd (torflowaggregator_printToFile env tfa)) = filename tfa @ ''.'' @ show_int (version tfa)"
  by (simp add: torflowaggregator_printToFile_def Let_def split: prod.splits)

lemma printToFile_filename: "filename (fst (torflowaggregator_printToFile env tfa)) = filename tfa"
  by (simp add: torflowaggregator_printToFile_def Let_def split: prod.splits)

text \<open>
  Claim C6. A new aggregator has version 0. Every publish, whatever \<^verbatim>\<open>unlink\<close> and
  \<^verbatim>\<open>symlink\<close> return, adds exactly 1 to the version and writes the file named by the
  base name, a dot and the version before the increment; so does every
  \<^verbatim>\<open>torflowaggregator_reportMeasurements\<close>, and after any sequence of publishes the
  version has grown by their number.
\<close>

theorem publish_version:
  "version (torflowaggregator_new fname workers cap) = 0
   \<and> version (fst (torflowaggregator_printToFile env tfa)) = version tfa + 1
   \<and> outFile (snd (torflowaggregator_printToFile env tfa)) = filename tfa @ ''.'' @ show_int (version tfa)
   \<and> version (fst (torflowaggregator_reportMeasurements perSlice meanBW filtBW env tfa rs sliceSize currSlice))
        = version tfa + 1
   \<and> version (fold (\<lambda>env a. fst (torflowaggregator_printToFile env a)) envs tfa) = version tfa + int (length envs)"
proof -
  have four: "version (fold (\<lambda>current a.
                         if relay_measureCount current \<ge> perSlice
                         then a\<lparr>relayStats :=
                                  g_hash_table_insert (stale_key_equal env) (relay_identity current)
                                    (measuredStats meanBW filtBW current) (relayStats a)\<rparr>
                         else a) w a) = version a" for w a
    by (induction w arbitrary: a) simp_all
  have five: "version (fold (\<lambda>env a. fst (torflowaggregator_printToFile env a)) envs a) = version a + int (length envs)" for a
    by (induction envs arbitrary: a) (simp_all add: printToFile_version)
  show ?thesis
    by (simp add: printToFile_version printToFile_outFile five four torflowaggregator_reportMeasurements_def
        torflowaggregator_new_def Let_def)
qed

lemma show_int_0: "show_int 0 = ''0''"
  by (simp add: show_int_def digit_def)

text \<open>
  Claim C7. On a new aggregator, a publish in which \<^verbatim>\<open>unlink\<close> and \<^verbatim>\<open>symlink\<close> both
  fail (return -1) logs nothing, and a publish in which both succeed (return 0) logs the
  two warnings: the tests \<^verbatim>\<open>!unlink(...)\<close> and \<^verbatim>\<open>!symlink(...)\<close> of lines 95 and 100
  are true on success.
\<close>

theorem publish_warnings_eval:
  "logged (snd (torflowaggregator_printToFile envLinksFail (torflowaggregator_new ''bw'' 1 (Fin 1)))) = []
   \<and> logged (snd (torflowaggregator_printToFile envLinksOk (torflowaggregator_new ''bw'' 1 (Fin 1)))) =
       [(SHADOW_LOG_LEVEL_WARNING, ''Unable to remove symlink to bw!'' @ newline),
        (SHADOW_LOG_LEVEL_WARNING, ''Unable to create symlink from bw.0 to bw!'' @ newline)]"
  by (simp add: aggregator_defs envLinksFail_def envLinksOk_def)

lemma capAndPrint_log_levels:
  "\<forall>m \<in> set (fst (snd (capAndPrint cap t))). fst m = SHADOW_LOG_LEVEL_MESSAGE"
  by (induction t) (auto simp: Let_def split: prod.splits)

text \<open>
  The warnings of a publish: each of the two is logged exactly when the call returned 0,
  which for \<^verbatim>\<open>unlink\<close> and \<^verbatim>\<open>symlink\<close> is success.
\<close>

lemma printToFile_warnings:
  "filter (\<lambda>m. fst m = SHADOW_LOG_LEVEL_WARNING) (logged (snd (torflowaggregator_printToFile env tfa))) =
     (if unlink_ret env = 0
      then [(SHADOW_LOG_LEVEL_WARNING, ''Unable to remove symlink to '' @ filename tfa @ ''!'' @ newline)]
      else [])
     @ (if symlink_ret env = 0
        then [(SHADOW_LOG_LEVEL_WARNING,
               ''Unable to create symlink from '' @ filename tfa @ ''.'' @ show_int (version tfa)
                 @ '' to '' @ filename tfa @ ''!'' @ newline)]
        else [])"
proof -
  have none: "filter (\<lambda>m. fst m = SHADOW_LOG_LEVEL_WARNING) (fst (snd (capAndPrint cap t))) = []"
    for cap t
    using capAndPrint_log_levels [of cap t] by (auto simp: filter_empty_conv)
  obtain stats1 totalBW where r: "redistribute (undef_gint env) (relayStats tfa) = (stats1, totalBW)"
    by (cases "redistribute (undef_gint env) (relayStats tfa)")
  define cap where "cap = double_to_gint (undef_gint env) (dmul (int_to_double totalBW) (nodeCap tfa))"
  obtain stats2 capLog lines where c: "capAndPrint cap stats1 = (stats2, capLog, lines)"
    by (cases "capAndPrint cap stats1")
  have "filter (\<lambda>m. fst m = SHADOW_LOG_LEVEL_WARNING) capLog = []"
    using none [of cap stats1] by (simp add: c)
  then show ?thesis
    by (simp add: torflowaggregator_printToFile_def r c cap_def [symmetric] Let_def)
qed

subsection \<open>The accumulators\<close>

lemma gint_wrap_id: "- (2 ^ 31) \<le> i \<Longrightarrow> i < 2 ^ 31 \<Longrightarrow> gint_wrap i = i"
  by (simp add: gint_wrap_def)

lemma gint_sums_defined_range:
  "gint_sums_defined acc xs \<Longrightarrow> - (2 ^ 31) \<le> acc \<Longrightarrow> acc < 2 ^ 31 \<Longrightarrow>
   - (2 ^ 31) \<le> acc + sum_list xs \<and> acc + sum_list xs < 2 ^ 31"
proof (induction xs arbitrary: acc)
  case Nil
  then show ?case by simp
next
  case (Cons x xs)
  have "- (2 ^ 31) \<le> acc + x + sum_list xs \<and> acc + x + sum_list xs < 2 ^ 31"
    using Cons.prems by (intro Cons.IH) simp_all
  then show ?case by (simp add: add.assoc)
qed

lemma fold_totals:
  "gint_sums_defined a (map (\<lambda>(key, st). meanBandwidth st) t) \<Longrightarrow>
   gint_sums_defined b (map (\<lambda>(key, st). filteredBandwidth st) t) \<Longrightarrow>
   fold (\<lambda>(key, current) (totalMeanBW, totalFiltBW).
             (gint_wrap (totalMeanBW + meanBandwidth current),
              gint_wrap (totalFiltBW + filteredBandwidth current)))
       t (a, b)
   = (a + (\<Sum>(key, st) \<leftarrow> t. meanBandwidth st), b + (\<Sum>(key, st) \<leftarrow> t. filteredBandwidth st))"
proof (induction t arbitrary: a b)
  case Nil
  show ?case by simp
next
  case (Cons x t)
  obtain key st where x: "x = (key, st)" by (cases x)
  have wa: "gint_wrap (a + meanBandwidth st) = a + meanBandwidth st"
    using Cons.prems(1) by (intro gint_wrap_id) (simp_all add: x)
  have wb: "gint_wrap (b + filteredBandwidth st) = b + filteredBandwidth st"
    using Cons.prems(2) by (intro gint_wrap_id) (simp_all add: x)
  have "fold (\<lambda>(key, current) (totalMeanBW, totalFiltBW).
             (gint_wrap (totalMeanBW + meanBandwidth current),
              gint_wrap (totalFiltBW + filteredBandwidth current)))
       t (a + meanBandwidth st, b + filteredBandwidth st)
     = (a + meanBandwidth st + (\<Sum>(key, st) \<leftarrow> t. meanBandwidth st),
        b + filteredBandwidth st + (\<Sum>(key, st) \<leftarrow> t. filteredBandwidth st))"
    using Cons.prems by (intro Cons.IH) (simp_all add: x)
  then show ?case by (simp add: x wa wb add.assoc)
qed

lemma totalBandwidths_eq:
  "gint_sums_defined 0 (map (\<lambda>(key, st). meanBandwidth st) t) \<Longrightarrow>
   gint_sums_defined 0 (map (\<lambda>(key, st). filteredBandwidth st) t) \<Longrightarrow>
   totalBandwidths t =
     ((\<Sum>(key, st) \<leftarrow> t. meanBandwidth st), (\<Sum>(key, st) \<leftarrow> t. filteredBandwidth st))"
  by (simp add: totalBandwidths_def fold_totals)

lemma newBandwidths_table:
  "fst (newBandwidths und am af t tot) =
     map (\<lambda>(key, st). (key, st\<lparr>newBandwidth := computeNewBandwidth und am af st\<rparr>)) t"
  by (induction t arbitrary: tot) (auto simp: Let_def split_beta)

lemma newBandwidths_total:
  "gint_sums_defined tot (map (\<lambda>(key, st). computeNewBandwidth und am af st) t) \<Longrightarrow>
   snd (newBandwidths und am af t tot) = tot + (\<Sum>(key, st) \<leftarrow> t. computeNewBandwidth und am af st)"
proof (induction t arbitrary: tot)
  case Nil
  show ?case by simp
next
  case (Cons x t)
  obtain key st where x: "x = (key, st)" by (cases x)
  have w: "gint_wrap (tot + computeNewBandwidth und am af st) = tot + computeNewBandwidth und am af st"
    using Cons.prems by (intro gint_wrap_id) (simp_all add: x)
  obtain t' tot' where r: "newBandwidths und am af t (tot + computeNewBandwidth und am af st) = (t', tot')"
    by (cases "newBandwidths und am af t (tot + computeNewBandwidth und am af st)")
  have "snd (newBandwidths und am af t (tot + computeNewBandwidth und am af st)) =
      tot + computeNewBandwidth und am af st + (\<Sum>(key, st) \<leftarrow> t. computeNewBandwidth und am af st)"
    using Cons.prems by (intro Cons.IH) (simp add: x)
  then have "tot' = tot + computeNewBandwidth und am af st
      + (\<Sum>(key, st) \<leftarrow> t. computeNewBandwidth und am af st)"
    by (simp add: r)
  then show ?case by (simp add: x w r Let_def add.assoc)
qed

lemma of_int_sum_list_rat:
  "(of_int (\<Sum>(key, st) \<leftarrow> t. f st) :: rat) = (\<Sum>(key, st) \<leftarrow> t. of_int (f st))"
  by (induction t) auto

subsection \<open>The new bandwidths\<close>

text \<open>
  The averages of a publish are the arithmetic means of the table rounded to binary64,
  when the table has fewer than \<open>2^32\<close> rows and the two totals do not overflow.
\<close>

lemma redistribute_averages:
  assumes ne: "t \<noteq> []" and len: "length t < 2 ^ 32"
    and sm: "gint_sums_defined 0 (map (\<lambda>(key, st). meanBandwidth st) t)"
    and sf: "gint_sums_defined 0 (map (\<lambda>(key, st). filteredBandwidth st) t)"
  shows "redistribute und t =
     newBandwidths und (round_binary64 (avgMean_spec t)) (round_binary64 (avgFiltered_spec t)) t 0"
proof -
  have l0: "(of_nat (length t) :: rat) \<noteq> 0" using ne by simp
  have "int (length t) < 2 ^ 32" using len by (metis of_nat_less_iff of_nat_numeral of_nat_power)
  then have "\<bar>int (length t)\<bar> < 2 ^ 53" by simp
  then have size: "int_to_double (int (length t)) = Fin (of_nat (length t))"
    by (simp add: int_to_double_exact)
  have rm: "- (2 ^ 31) \<le> (\<Sum>(key, st) \<leftarrow> t. meanBandwidth st)
      \<and> (\<Sum>(key, st) \<leftarrow> t. meanBandwidth st) < 2 ^ 31"
    using gint_sums_defined_range [OF sm] by simp
  then have "\<bar>\<Sum>(key, st) \<leftarrow> t. meanBandwidth st\<bar> < 2 ^ 53" by (auto simp: abs_less_iff)
  then have tm: "int_to_double (\<Sum>(key, st) \<leftarrow> t. meanBandwidth st)
      = Fin (of_int (\<Sum>(key, st) \<leftarrow> t. meanBandwidth st))"
    by (rule int_to_double_exact)
  have rf: "- (2 ^ 31) \<le> (\<Sum>(key, st) \<leftarrow> t. filteredBandwidth st)
      \<and> (\<Sum>(key, st) \<leftarrow> t. filteredBandwidth st) < 2 ^ 31"
    using gint_sums_defined_range [OF sf] by simp
  then have "\<bar>\<Sum>(key, st) \<leftarrow> t. filteredBandwidth st\<bar> < 2 ^ 53" by (auto simp: abs_less_iff)
  then have tf: "int_to_double (\<Sum>(key, st) \<leftarrow> t. filteredBandwidth st)
      = Fin (of_int (\<Sum>(key, st) \<leftarrow> t. filteredBandwidth st))"
    by (rule int_to_double_exact)
  have am: "ddiv (int_to_double (\<Sum>(key, st) \<leftarrow> t. meanBandwidth st)) (int_to_double (int (length t)))
      = round_binary64 (avgMean_spec t)"
    unfolding tm size using l0 by (simp add: avgMean_spec_def of_int_sum_list_rat)
  have af: "ddiv (int_to_double (\<Sum>(key, st) \<leftarrow> t. filteredBandwidth st)) (int_to_double (int (length t)))
      = round_binary64 (avgFiltered_spec t)"
    unfolding tf size using l0 by (simp add: avgFiltered_spec_def of_int_sum_list_rat)
  show ?thesis
    by (simp add: redistribute_def totalBandwidths_eq [OF sm sf] Let_def am af)
qed

lemma computeNewBandwidth_spec:
  "computeNewBandwidth und (round_binary64 (avgMean_spec t)) (round_binary64 (avgFiltered_spec t)) st
     = newBandwidth_binary64_spec und t st"
  by (simp add: computeNewBandwidth_def newBandwidth_binary64_spec_def)

lemma redistribute_table:
  assumes "t \<noteq> []" "length t < 2 ^ 32"
    and "gint_sums_defined 0 (map (\<lambda>(key, st). meanBandwidth st) t)"
    and "gint_sums_defined 0 (map (\<lambda>(key, st). filteredBandwidth st) t)"
  shows "fst (redistribute und t) =
     map (\<lambda>(key, st). (key, st\<lparr>newBandwidth := newBandwidth_binary64_spec und t st\<rparr>)) t"
  by (simp add: redistribute_averages [OF assms] newBandwidths_table computeNewBandwidth_spec)

lemma redistribute_total:
  assumes "t \<noteq> []" "length t < 2 ^ 32"
    and "gint_sums_defined 0 (map (\<lambda>(key, st). meanBandwidth st) t)"
    and "gint_sums_defined 0 (map (\<lambda>(key, st). filteredBandwidth st) t)"
    and "gint_sums_defined 0 (map (\<lambda>(key, st). newBandwidth_binary64_spec und t st) t)"
  shows "snd (redistribute und t) = (\<Sum>(key, st) \<leftarrow> t. newBandwidth_binary64_spec und t st)"
proof -
  have "gint_sums_defined 0 (map (\<lambda>(key, st).
      computeNewBandwidth und (round_binary64 (avgMean_spec t)) (round_binary64 (avgFiltered_spec t)) st) t)"
    using assms(5) by (simp add: computeNewBandwidth_spec)
  then show ?thesis
    by (simp add: redistribute_averages [OF assms(1-4)] newBandwidths_total computeNewBandwidth_spec)
qed

text \<open>
  Claim C2. After the second loop of a publish, an entry of the stats table has as its
  new bandwidth the cast to \<^verbatim>\<open>gint\<close> (the truncation toward zero) of its advertised
  bandwidth times the larger of mean/avgMean and filtered/avgFiltered, where the
  averages are the arithmetic means over all entries of the table and every average,
  quotient and product is rounded to binary64. The keys of the table are unchanged, and
  the total is the sum of the new bandwidths. This for a table of fewer than \<open>2^32\<close> rows
  on which the three \<^verbatim>\<open>gint\<close> totals of the publish do not overflow.
\<close>

theorem publish_newBandwidth:
  assumes "(key, st) \<in> set t" and "length t < 2 ^ 32"
    and "gint_sums_defined 0 (map (\<lambda>(key, st). meanBandwidth st) t)"
    and "gint_sums_defined 0 (map (\<lambda>(key, st). filteredBandwidth st) t)"
    and "gint_sums_defined 0 (map (\<lambda>(key, st). newBandwidth_binary64_spec und t st) t)"
  shows "(key, st\<lparr>newBandwidth := newBandwidth_binary64_spec und t st\<rparr>)
           \<in> set (fst (redistribute und t))
         \<and> map fst (fst (redistribute und t)) = map fst t
         \<and> snd (redistribute und t) = (\<Sum>(key, st) \<leftarrow> t. newBandwidth_binary64_spec und t st)"
proof -
  have ne: "t \<noteq> []" using assms(1) by auto
  have tab: "fst (redistribute und t) =
     map (\<lambda>(key, st). (key, st\<lparr>newBandwidth := newBandwidth_binary64_spec und t st\<rparr>)) t"
    by (rule redistribute_table [OF ne assms(2-4)])
  have "(key, st\<lparr>newBandwidth := newBandwidth_binary64_spec und t st\<rparr>)
      \<in> set (fst (redistribute und t))"
    unfolding tab using assms(1) by force
  moreover have "map fst (fst (redistribute und t)) = map fst t"
    unfolding tab by (induction t) auto
  moreover have "snd (redistribute und t) = (\<Sum>(key, st) \<leftarrow> t. newBandwidth_binary64_spec und t st)"
    by (rule redistribute_total [OF ne assms(2-5)])
  ultimately show ?thesis by simp
qed

lemma tfaTwo_stats:
  "relayStats tfaTwo = [(Live ''L'', initialStats relayLow), (Live ''H'', initialStats relayHigh)]"
  by (simp add: tfaTwo_def torflowaggregator_reportInitial_def torflowaggregator_new_def relayLow_def relayHigh_def)

lemma tfaTwo_averages:
  "avgMean_spec (relayStats tfaTwo) = 2" "avgFiltered_spec (relayStats tfaTwo) = 2"
  by (simp_all add: tfaTwo_stats avgMean_spec_def avgFiltered_spec_def initialStats_def
      relayLow_def relayHigh_def)

lemma tfaTwo_newBandwidths:
  "newBandwidth_binary64_spec 0 (relayStats tfaTwo) (initialStats relayLow) = 0"
  "newBandwidth_binary64_spec 0 (relayStats tfaTwo) (initialStats relayHigh) = 1"
  by (simp_all add: newBandwidth_binary64_spec_def tfaTwo_averages)
    (simp_all add: initialStats_def relayLow_def relayHigh_def int_to_double_exact
      round_binary64_numeral round_binary64_one round_binary64_half_1 round_binary64_half_3
      double_to_gint_def truncate_rat_def floor_eq_iff)

theorem publish_newBandwidth_witness:
  "(Live ''H'', initialStats relayHigh) \<in> set (relayStats tfaTwo)
   \<and> length (relayStats tfaTwo) < 2 ^ 32
   \<and> gint_sums_defined 0 (map (\<lambda>(key, st). meanBandwidth st) (relayStats tfaTwo))
   \<and> gint_sums_defined 0 (map (\<lambda>(key, st). filteredBandwidth st) (relayStats tfaTwo))
   \<and> gint_sums_defined 0
       (map (\<lambda>(key, st). newBandwidth_binary64_spec 0 (relayStats tfaTwo) st) (relayStats tfaTwo))
   \<and> newBandwidth_spec (relayStats tfaTwo) (initialStats relayHigh) = 3 / 2
   \<and> newBandwidth_binary64_spec 0 (relayStats tfaTwo) (initialStats relayHigh) = 1
   \<and> (Live ''H'', (initialStats relayHigh)\<lparr>newBandwidth := 1\<rparr>)
         \<in> set (fst (redistribute 0 (relayStats tfaTwo)))
   \<and> snd (redistribute 0 (relayStats tfaTwo)) = 1"
proof -
  have h1: "(Live ''H'', initialStats relayHigh) \<in> set (relayStats tfaTwo)"
    by (simp add: tfaTwo_stats)
  have h2: "length (relayStats tfaTwo) < 2 ^ 32" by (simp add: tfaTwo_stats)
  have h3: "gint_sums_defined 0 (map (\<lambda>(key, st). meanBandwidth st) (relayStats tfaTwo))"
    by (simp add: tfaTwo_stats initialStats_def relayLow_def relayHigh_def)
  have h4: "gint_sums_defined 0 (map (\<lambda>(key, st). filteredBandwidth st) (relayStats tfaTwo))"
    by (simp add: tfaTwo_stats initialStats_def relayLow_def relayHigh_def)
  have s: "map (\<lambda>(key, st). newBandwidth_binary64_spec 0 (relayStats tfaTwo) st) (relayStats tfaTwo)
      = [0, 1]"
    using tfaTwo_newBandwidths by (simp add: tfaTwo_stats)
  have h5: "gint_sums_defined 0
       (map (\<lambda>(key, st). newBandwidth_binary64_spec 0 (relayStats tfaTwo) st) (relayStats tfaTwo))"
    unfolding s by simp
  have nb: "newBandwidth_spec (relayStats tfaTwo) (initialStats relayHigh) = 3 / 2"
    by (simp add: newBandwidth_spec_def tfaTwo_averages) (simp add: initialStats_def relayHigh_def)
  have tot: "(\<Sum>(key, st) \<leftarrow> relayStats tfaTwo.
      newBandwidth_binary64_spec 0 (relayStats tfaTwo) st) = 1"
    using arg_cong [OF s, of sum_list] by simp
  show ?thesis
    using publish_newBandwidth [OF h1 h2 h3 h4 h5] h1 h2 h3 h4 h5 nb tot tfaTwo_newBandwidths(2)
    by simp
qed

theorem publish_newBandwidth_counterexample:
  "(Live ''L'', initialStats relayLow) \<in> set (relayStats tfaTwo)
   \<and> newBandwidth_spec (relayStats tfaTwo) (initialStats relayLow) = 1 / 2
   \<and> map_of (fst (redistribute 0 (relayStats tfaTwo))) (Live ''L'')
       = Some ((initialStats relayLow)\<lparr>newBandwidth := 0\<rparr>)"
proof -
  have ne: "relayStats tfaTwo \<noteq> []" and len: "length (relayStats tfaTwo) < 2 ^ 32"
    by (simp_all add: tfaTwo_stats)
  have h3: "gint_sums_defined 0 (map (\<lambda>(key, st). meanBandwidth st) (relayStats tfaTwo))"
    by (simp add: tfaTwo_stats initialStats_def relayLow_def relayHigh_def)
  have h4: "gint_sums_defined 0 (map (\<lambda>(key, st). filteredBandwidth st) (relayStats tfaTwo))"
    by (simp add: tfaTwo_stats initialStats_def relayLow_def relayHigh_def)
  have nb: "newBandwidth_spec (relayStats tfaTwo) (initialStats relayLow) = 1 / 2"
    by (simp add: newBandwidth_spec_def tfaTwo_averages) (simp add: initialStats_def relayLow_def)
  have m: "map_of (fst (redistribute 0 (relayStats tfaTwo))) (Live ''L'')
       = Some ((initialStats relayLow)\<lparr>newBandwidth := 0\<rparr>)"
    unfolding redistribute_table [OF ne len h3 h4]
    using tfaTwo_newBandwidths(1) by (simp add: tfaTwo_stats)
  show ?thesis using m nb by (simp add: tfaTwo_stats)
qed

text \<open>
  The rounding shows in the result. With the descriptor bandwidths 1 and 97 the average
  is 49; the quotient 1/49 is rounded down to \<open>5882252574524729 / 2^58\<close>, its product
  with the advertised bandwidth 49 is rounded to \<open>1 - 2^(-53)\<close>, and the cast gives 0,
  where the exact product is 1.
\<close>

lemma tfaRounded_stats:
  "relayStats tfaRounded = [(Live ''O'', initialStats relayOne), (Live ''P'', initialStats relayPeer)]"
  by (simp add: tfaRounded_def torflowaggregator_reportInitial_def torflowaggregator_new_def relayOne_def relayPeer_def)

lemma newBandwidth_rounded_eval:
  "newBandwidth_spec (relayStats tfaRounded) (initialStats relayOne) = 1
   \<and> map_of (fst (redistribute 0 (relayStats tfaRounded))) (Live ''O'')
       = Some ((initialStats relayOne)\<lparr>newBandwidth := 0\<rparr>)"
proof -
  have ne: "relayStats tfaRounded \<noteq> []" and len: "length (relayStats tfaRounded) < 2 ^ 32"
    by (simp_all add: tfaRounded_stats)
  have h3: "gint_sums_defined 0 (map (\<lambda>(key, st). meanBandwidth st) (relayStats tfaRounded))"
    by (simp add: tfaRounded_stats initialStats_def relayOne_def relayPeer_def)
  have h4: "gint_sums_defined 0 (map (\<lambda>(key, st). filteredBandwidth st) (relayStats tfaRounded))"
    by (simp add: tfaRounded_stats initialStats_def relayOne_def relayPeer_def)
  have av: "avgMean_spec (relayStats tfaRounded) = 49" "avgFiltered_spec (relayStats tfaRounded) = 49"
    by (simp_all add: tfaRounded_stats avgMean_spec_def avgFiltered_spec_def initialStats_def
        relayOne_def relayPeer_def)
  have nb: "newBandwidth_spec (relayStats tfaRounded) (initialStats relayOne) = 1"
    by (simp add: newBandwidth_spec_def av) (simp add: initialStats_def relayOne_def)
  have tr: "truncate_rat (9007199254740991 / 9007199254740992) = 0"
    by (simp add: truncate_rat_def floor_eq_iff)
  have p: "round_binary64 (288230376151711721 / 288230376151711744)
      = Fin (9007199254740991 / 9007199254740992)"
    using round_binary64_49_times by simp
  have c: "newBandwidth_binary64_spec 0 (relayStats tfaRounded) (initialStats relayOne) = 0"
    by (simp add: newBandwidth_binary64_spec_def av)
      (simp add: initialStats_def relayOne_def int_to_double_exact round_binary64_numeral
        round_binary64_1_49 p double_to_gint_def tr)
  have m: "map_of (fst (redistribute 0 (relayStats tfaRounded))) (Live ''O'')
       = Some ((initialStats relayOne)\<lparr>newBandwidth := 0\<rparr>)"
    unfolding redistribute_table [OF ne len h3 h4]
    using c by (simp add: tfaRounded_stats)
  show ?thesis using m nb by simp
qed

subsection \<open>Publishing the initial table\<close>

lemma reportMeasurements_Nil:
  "torflowaggregator_reportMeasurements perSlice meanBW filtBW env tfa [] sliceSize currSlice = torflowaggregator_printToFile env tfa"
  by (simp add: torflowaggregator_reportMeasurements_def g_slist_nth_def)

lemma reportInitial_three:
  assumes "distinct [relay_identity r1, relay_identity r2, relay_identity r3]"
  shows "relayStats (torflowaggregator_reportInitial staleEq (torflowaggregator_new fname workers cap) [r1, r2, r3]) =
     [(Live (relay_identity r1), initialStats r1), (Live (relay_identity r2), initialStats r2),
      (Live (relay_identity r3), initialStats r3)]"
  using assms by (simp add: torflowaggregator_reportInitial_def torflowaggregator_new_def)

lemma truncate_half: "0 \<le> a \<Longrightarrow> truncate_rat (of_int a / 2) = a div 2"
proof -
  assume a: "0 \<le> a"
  have "(of_int a / 2 :: rat) = of_int a / of_int 2" by simp
  then have "\<lfloor>of_int a / 2 :: rat\<rfloor> = a div 2" by (simp only: floor_divide_of_int_eq)
  moreover have "\<not> (of_int a / 2 :: rat) < 0" using a by simp
  ultimately show ?thesis by (simp add: truncate_rat_def)
qed

lemma truncate_of_int: "truncate_rat (of_int a) = a"
  by (simp add: truncate_rat_def)

text \<open>
  The products of line 63 for the ratios 1/2, 1 and 3/2, which binary64 represents: the
  product with an advertised bandwidth between 0 and \<open>10^9\<close> is exact.
\<close>

lemma truncate_three_halves: "0 \<le> a \<Longrightarrow> truncate_rat (of_int a * 3 / 2) = (3 * a) div 2"
proof -
  assume a: "0 \<le> a"
  have "(of_int a * 3 / 2 :: rat) = of_int (3 * a) / of_int 2" by simp
  then have "\<lfloor>of_int a * 3 / 2 :: rat\<rfloor> = (3 * a) div 2" by (simp only: floor_divide_of_int_eq)
  moreover have "\<not> (of_int a * 3 / 2 :: rat) < 0" using a by simp
  ultimately show ?thesis by (simp add: truncate_rat_def)
qed

lemma computeNewBandwidth_half:
  assumes "0 \<le> advertisedBandwidth st" "advertisedBandwidth st \<le> 1000000000"
    and "meanBandwidth st = 100" "filteredBandwidth st = 100"
  shows "computeNewBandwidth und (Fin 200) (Fin 200) st = advertisedBandwidth st div 2"
proof -
  let ?a = "advertisedBandwidth st"
  have ia: "int_to_double ?a = Fin (of_int ?a)"
    using assms(1,2) by (intro int_to_double_exact) (simp add: abs_less_iff)
  have q: "ddiv (int_to_double 100) (Fin 200) = Fin (1 / 2)"
    by (simp add: int_to_double_exact round_binary64_half_1)
  have rnd: "round_binary64 (of_int ?a / 2) = Fin (of_int ?a / 2)"
    using assms(1,2) by (intro round_binary64_half) simp_all
  have r: "- 2147483648 \<le> ?a div 2" "?a div 2 < 2147483648" using assms(1,2) by auto
  have "computeNewBandwidth und (Fin 200) (Fin 200) st =
      double_to_gint und (dmul (Fin (of_int ?a)) (fmax (Fin (1 / 2)) (Fin (1 / 2))))"
    by (simp only: computeNewBandwidth_def assms(3,4) ia q)
  also have "\<dots> = double_to_gint und (round_binary64 (of_int ?a / 2))" by simp
  also have "\<dots> = double_to_gint und (Fin (of_int ?a / 2))" by (simp only: rnd)
  also have "\<dots> = ?a div 2"
    using r by (simp add: double_to_gint_def truncate_half [OF assms(1)] Let_def)
  finally show ?thesis .
qed

lemma computeNewBandwidth_one:
  assumes "0 \<le> advertisedBandwidth st" "advertisedBandwidth st \<le> 1000000000"
    and "meanBandwidth st = 200" "filteredBandwidth st = 200"
  shows "computeNewBandwidth und (Fin 200) (Fin 200) st = advertisedBandwidth st"
proof -
  let ?a = "advertisedBandwidth st"
  have aa: "\<bar>?a\<bar> < 2 ^ 53" using assms(1,2) by (simp add: abs_less_iff)
  have ia: "int_to_double ?a = Fin (of_int ?a)" using aa by (rule int_to_double_exact)
  have q: "ddiv (int_to_double 200) (Fin 200) = Fin 1"
    by (simp add: int_to_double_exact round_binary64_one)
  have rnd: "round_binary64 (of_int ?a) = Fin (of_int ?a)"
    by (rule round_binary64_of_int [OF aa])
  have "computeNewBandwidth und (Fin 200) (Fin 200) st =
      double_to_gint und (dmul (Fin (of_int ?a)) (fmax (Fin 1) (Fin 1)))"
    by (simp only: computeNewBandwidth_def assms(3,4) ia q)
  also have "\<dots> = double_to_gint und (round_binary64 (of_int ?a))" by simp
  also have "\<dots> = double_to_gint und (Fin (of_int ?a))" by (simp only: rnd)
  also have "\<dots> = ?a"
    using assms(1,2) by (simp add: double_to_gint_def truncate_of_int Let_def)
  finally show ?thesis .
qed

lemma computeNewBandwidth_three_halves:
  assumes "0 \<le> advertisedBandwidth st" "advertisedBandwidth st \<le> 1000000000"
    and "meanBandwidth st = 300" "filteredBandwidth st = 300"
  shows "computeNewBandwidth und (Fin 200) (Fin 200) st = (3 * advertisedBandwidth st) div 2"
proof -
  let ?a = "advertisedBandwidth st"
  have ia: "int_to_double ?a = Fin (of_int ?a)"
    using assms(1,2) by (intro int_to_double_exact) (simp add: abs_less_iff)
  have q: "ddiv (int_to_double 300) (Fin 200) = Fin (3 / 2)"
    by (simp add: int_to_double_exact round_binary64_half_3)
  have "round_binary64 (of_int (3 * ?a) / 2) = Fin (of_int (3 * ?a) / 2)"
    using assms(1,2) by (intro round_binary64_half) simp_all
  then have rnd: "round_binary64 (of_int ?a * 3 / 2) = Fin (of_int ?a * 3 / 2)"
    by (simp add: mult.commute)
  have r: "- 2147483648 \<le> (3 * ?a) div 2" "(3 * ?a) div 2 < 2147483648" using assms(1,2) by auto
  have "computeNewBandwidth und (Fin 200) (Fin 200) st =
      double_to_gint und (dmul (Fin (of_int ?a)) (fmax (Fin (3 / 2)) (Fin (3 / 2))))"
    by (simp only: computeNewBandwidth_def assms(3,4) ia q)
  also have "\<dots> = double_to_gint und (round_binary64 (of_int ?a * 3 / 2))" by simp
  also have "\<dots> = double_to_gint und (Fin (of_int ?a * 3 / 2))" by (simp only: rnd)
  also have "\<dots> = (3 * ?a) div 2"
    using r by (simp add: double_to_gint_def truncate_three_halves [OF assms(1)] Let_def)
  finally show ?thesis .
qed

text \<open>
  The table of three rows with the descriptor bandwidths 100, 200 and 300 as their mean
  and filtered bandwidths: the averages are 200, and the second loop gives the three
  products and their sum.
\<close>

lemma redistribute_100_200_300:
  assumes m: "meanBandwidth s1 = 100" "meanBandwidth s2 = 200" "meanBandwidth s3 = 300"
    and f: "filteredBandwidth s1 = 100" "filteredBandwidth s2 = 200" "filteredBandwidth s3 = 300"
    and a1: "0 \<le> advertisedBandwidth s1 \<and> advertisedBandwidth s1 \<le> 1000000000"
    and a2: "0 \<le> advertisedBandwidth s2 \<and> advertisedBandwidth s2 \<le> 1000000000"
    and a3: "0 \<le> advertisedBandwidth s3 \<and> advertisedBandwidth s3 \<le> 1000000000"
    and tot: "advertisedBandwidth s1 div 2 + advertisedBandwidth s2
                + (3 * advertisedBandwidth s3) div 2 < 2 ^ 31"
  shows "redistribute und [(k1, s1), (k2, s2), (k3, s3)] =
     ([(k1, s1\<lparr>newBandwidth := advertisedBandwidth s1 div 2\<rparr>),
       (k2, s2\<lparr>newBandwidth := advertisedBandwidth s2\<rparr>),
       (k3, s3\<lparr>newBandwidth := (3 * advertisedBandwidth s3) div 2\<rparr>)],
      advertisedBandwidth s1 div 2 + advertisedBandwidth s2 + (3 * advertisedBandwidth s3) div 2)"
proof -
  have c1: "computeNewBandwidth und (Fin 200) (Fin 200) s1 = advertisedBandwidth s1 div 2"
    using a1 m(1) f(1) by (intro computeNewBandwidth_half) simp_all
  have c2: "computeNewBandwidth und (Fin 200) (Fin 200) s2 = advertisedBandwidth s2"
    using a2 m(2) f(2) by (intro computeNewBandwidth_one) simp_all
  have c3: "computeNewBandwidth und (Fin 200) (Fin 200) s3 = (3 * advertisedBandwidth s3) div 2"
    using a3 m(3) f(3) by (intro computeNewBandwidth_three_halves) simp_all
  have tb: "totalBandwidths [(k1, s1), (k2, s2), (k3, s3)] = (600, 600)"
    by (simp add: totalBandwidths_def m f gint_wrap_def)
  have av: "ddiv (int_to_double 600) (int_to_double (int (length [(k1, s1), (k2, s2), (k3, s3)])))
      = Fin 200"
    by (simp add: int_to_double_exact round_binary64_numeral)
  define h where "h = advertisedBandwidth s1 div 2"
  define k where "k = (3 * advertisedBandwidth s3) div 2"
  have n1: "0 \<le> h" using a1 by (simp add: h_def)
  have n3: "0 \<le> k" using a3 by (simp add: k_def)
  have t: "h + advertisedBandwidth s2 + k < 2147483648" using tot by (simp add: h_def k_def)
  have "gint_wrap h = h" "gint_wrap (h + advertisedBandwidth s2) = h + advertisedBandwidth s2"
    "gint_wrap (h + advertisedBandwidth s2 + k) = h + advertisedBandwidth s2 + k"
    using n1 n3 a2 t by (simp_all add: gint_wrap_id)
  then have w1: "gint_wrap (advertisedBandwidth s1 div 2) = advertisedBandwidth s1 div 2"
    and w2: "gint_wrap (advertisedBandwidth s1 div 2 + advertisedBandwidth s2)
      = advertisedBandwidth s1 div 2 + advertisedBandwidth s2"
    and w3: "gint_wrap (advertisedBandwidth s1 div 2 + advertisedBandwidth s2
        + (3 * advertisedBandwidth s3) div 2)
      = advertisedBandwidth s1 div 2 + advertisedBandwidth s2 + (3 * advertisedBandwidth s3) div 2"
    unfolding h_def k_def by blast+
  show ?thesis
    unfolding redistribute_def tb
    by (simp only: Let_def prod.case av newBandwidths.simps c1 c2 c3 w1 w2 w3 add_0)
qed

text \<open>
  Claim C8. Seeded by a first \<^verbatim>\<open>torflowaggregator_reportInitial\<close> with three relays of
  distinct identities and descriptor bandwidths 100, 200 and 300, whose advertised
  bandwidths \<open>a1\<close>, \<open>a2\<close>, \<open>a3\<close> are between 0 and \<open>10^9\<close>, the second loop of the next
  publish gives the new bandwidths \<open>a1 div 2\<close>, \<open>a2\<close> and \<open>3 * a3 div 2\<close>, the advertised
  bandwidth times the ratio of the descriptor bandwidth to the mean 200, truncated, and
  their sum as the total before capping, when that sum is in the range of \<^verbatim>\<open>gint\<close>.
\<close>

theorem initial_publish_100_200_300:
  assumes ids: "distinct [relay_identity r1, relay_identity r2, relay_identity r3]"
    and d1: "relay_descriptorBandwidth r1 = 100"
    and d2: "relay_descriptorBandwidth r2 = 200"
    and d3: "relay_descriptorBandwidth r3 = 300"
    and a1: "0 \<le> relay_advertisedBandwidth r1 \<and> relay_advertisedBandwidth r1 \<le> 1000000000"
    and a2: "0 \<le> relay_advertisedBandwidth r2 \<and> relay_advertisedBandwidth r2 \<le> 1000000000"
    and a3: "0 \<le> relay_advertisedBandwidth r3 \<and> relay_advertisedBandwidth r3 \<le> 1000000000"
    and tot: "relay_advertisedBandwidth r1 div 2 + relay_advertisedBandwidth r2
                + (3 * relay_advertisedBandwidth r3) div 2 < 2 ^ 31"
  shows "redistribute und
           (relayStats (torflowaggregator_reportInitial staleEq (torflowaggregator_new fname workers cap) [r1, r2, r3])) =
     ([(Live (relay_identity r1), (initialStats r1)\<lparr>newBandwidth := relay_advertisedBandwidth r1 div 2\<rparr>),
       (Live (relay_identity r2), (initialStats r2)\<lparr>newBandwidth := relay_advertisedBandwidth r2\<rparr>),
       (Live (relay_identity r3), (initialStats r3)\<lparr>newBandwidth := (3 * relay_advertisedBandwidth r3) div 2\<rparr>)],
      relay_advertisedBandwidth r1 div 2 + relay_advertisedBandwidth r2
        + (3 * relay_advertisedBandwidth r3) div 2)"
proof -
  have s: "advertisedBandwidth (initialStats r) = relay_advertisedBandwidth r"
    "meanBandwidth (initialStats r) = relay_descriptorBandwidth r"
    "filteredBandwidth (initialStats r) = relay_descriptorBandwidth r" for r
    by (simp_all add: initialStats_def)
  have "redistribute und
      [(Live (relay_identity r1), initialStats r1), (Live (relay_identity r2), initialStats r2),
       (Live (relay_identity r3), initialStats r3)] =
     ([(Live (relay_identity r1), (initialStats r1)\<lparr>newBandwidth := advertisedBandwidth (initialStats r1) div 2\<rparr>),
       (Live (relay_identity r2), (initialStats r2)\<lparr>newBandwidth := advertisedBandwidth (initialStats r2)\<rparr>),
       (Live (relay_identity r3), (initialStats r3)\<lparr>newBandwidth := (3 * advertisedBandwidth (initialStats r3)) div 2\<rparr>)],
      advertisedBandwidth (initialStats r1) div 2 + advertisedBandwidth (initialStats r2)
        + (3 * advertisedBandwidth (initialStats r3)) div 2)"
    using d1 d2 d3 a1 a2 a3 tot by (intro redistribute_100_200_300) (simp_all add: s)
  then show ?thesis unfolding reportInitial_three [OF ids] s .
qed

theorem initial_publish_100_200_300_witness:
  "distinct [relay_identity relay100, relay_identity relay200, relay_identity relay300]
   \<and> relay_advertisedBandwidth relay100 div 2 + relay_advertisedBandwidth relay200
        + (3 * relay_advertisedBandwidth relay300) div 2 < 2 ^ 31
   \<and> redistribute 0
     (relayStats (torflowaggregator_reportInitial False (torflowaggregator_new ''bw'' 1 (Fin 1)) [relay100, relay200, relay300])) =
     ([(Live ''R1'', (initialStats relay100)\<lparr>newBandwidth := 100\<rparr>),
       (Live ''R2'', (initialStats relay200)\<lparr>newBandwidth := 200\<rparr>),
       (Live ''R3'', (initialStats relay300)\<lparr>newBandwidth := 300\<rparr>)], 600)"
proof -
  have ids: "distinct [relay_identity relay100, relay_identity relay200, relay_identity relay300]"
    by (simp add: relay100_def relay200_def relay300_def)
  have d: "relay_descriptorBandwidth relay100 = 100" "relay_descriptorBandwidth relay200 = 200"
    "relay_descriptorBandwidth relay300 = 300"
    by (simp_all add: relay100_def relay200_def relay300_def)
  have a: "0 \<le> relay_advertisedBandwidth relay100 \<and> relay_advertisedBandwidth relay100 \<le> 1000000000"
    "0 \<le> relay_advertisedBandwidth relay200 \<and> relay_advertisedBandwidth relay200 \<le> 1000000000"
    "0 \<le> relay_advertisedBandwidth relay300 \<and> relay_advertisedBandwidth relay300 \<le> 1000000000"
    by (simp_all add: relay100_def relay200_def relay300_def)
  have tot: "relay_advertisedBandwidth relay100 div 2 + relay_advertisedBandwidth relay200
        + (3 * relay_advertisedBandwidth relay300) div 2 < 2 ^ 31"
    by (simp add: relay100_def relay200_def relay300_def)
  have v: "relay_identity relay100 = ''R1''" "relay_identity relay200 = ''R2''"
    "relay_identity relay300 = ''R3''"
    "relay_advertisedBandwidth relay100 = 200" "relay_advertisedBandwidth relay200 = 200"
    "relay_advertisedBandwidth relay300 = 200"
    by (simp_all add: relay100_def relay200_def relay300_def)
  show ?thesis
    using initial_publish_100_200_300 [OF ids d a tot, of 0 False "''bw''" 1 "Fin 1"] ids tot
    by (simp add: v)
qed

lemma tfaSeeded_stats:
  "relayStats tfaSeeded =
     [(Live ''A'', initialStats entryA), (Live ''B'', initialStats exitB), (Live ''X'', initialStats authX)]"
  by (simp add: tfaSeeded_def torflowaggregator_reportInitial_def torflowaggregator_new_def example_defs)

lemma tfaSeeded_redistribute:
  "redistribute und (relayStats tfaSeeded) =
     ([(Live ''A'', (initialStats entryA)\<lparr>newBandwidth := 50\<rparr>),
       (Live ''B'', (initialStats exitB)\<lparr>newBandwidth := 200\<rparr>),
       (Live ''X'', (initialStats authX)\<lparr>newBandwidth := 450\<rparr>)], 700)"
proof -
  have s: "advertisedBandwidth (initialStats r) = relay_advertisedBandwidth r"
    "meanBandwidth (initialStats r) = relay_descriptorBandwidth r"
    "filteredBandwidth (initialStats r) = relay_descriptorBandwidth r" for r
    by (simp_all add: initialStats_def)
  have v: "relay_advertisedBandwidth entryA = 100" "relay_advertisedBandwidth exitB = 200"
    "relay_advertisedBandwidth authX = 300"
    "relay_descriptorBandwidth entryA = 100" "relay_descriptorBandwidth exitB = 200"
    "relay_descriptorBandwidth authX = 300"
    by (simp_all add: example_defs)
  have "redistribute und
      [(Live ''A'', initialStats entryA), (Live ''B'', initialStats exitB), (Live ''X'', initialStats authX)] =
     ([(Live ''A'', (initialStats entryA)\<lparr>newBandwidth := advertisedBandwidth (initialStats entryA) div 2\<rparr>),
       (Live ''B'', (initialStats exitB)\<lparr>newBandwidth := advertisedBandwidth (initialStats exitB)\<rparr>),
       (Live ''X'', (initialStats authX)\<lparr>newBandwidth := (3 * advertisedBandwidth (initialStats authX)) div 2\<rparr>)],
      advertisedBandwidth (initialStats entryA) div 2 + advertisedBandwidth (initialStats exitB)
        + (3 * advertisedBandwidth (initialStats authX)) div 2)"
    by (intro redistribute_100_200_300) (simp_all add: s v)
  then show ?thesis unfolding tfaSeeded_stats by (simp add: s v)
qed

theorem initial_publish_100_200_300_counterexample:
  "map (\<lambda>(key, st). descriptorBandwidth st) (relayStats tfaSeeded) = [100, 200, 300]
   \<and> map (\<lambda>(key, st). newBandwidth st) (fst (redistribute 0 (relayStats tfaSeeded))) = [50, 200, 450]
   \<and> snd (redistribute 0 (relayStats tfaSeeded)) = 700"
  unfolding tfaSeeded_redistribute
  by (simp add: tfaSeeded_stats initialStats_def example_defs)

lemma publish_seeded_eval:
  "outFile (snd (torflowaggregator_printToFile envLinksOk tfaSeeded)) = ''bw.0''
   \<and> outText (snd (torflowaggregator_printToFile envLinksOk tfaSeeded)) =
       ''1500000000'' @ newline
       @ ''node_id=$A bw=50 nick=a'' @ newline
       @ ''node_id=$B bw=200 nick=b'' @ newline
       @ ''node_id=$X bw=450 nick=x'' @ newline"
proof -
  have c: "nodeCap tfaSeeded = Fin 1" "filename tfaSeeded = ''bw''" "version tfaSeeded = 0"
    by (simp_all add: tfaSeeded_def torflowaggregator_reportInitial_def torflowaggregator_new_def)
  have s: "show_int 50 = ''50''" "show_int 200 = ''200''" "show_int 450 = ''450''"
    "show_int 0 = ''0''" "show_int 1500000000 = ''1500000000''"
    by (simp_all add: show_int_def digit_def)
  show ?thesis
    by (simp add: torflowaggregator_printToFile_def tfaSeeded_redistribute c envLinksOk_def
        int_to_double_exact round_binary64_numeral double_to_gint_def
        truncate_rat_def initialStats_def example_defs s Let_def)
qed

subsection \<open>A relay measured again\<close>

text \<open>
  The first report of a relay that the table holds replaces its row and leaves the key
  pointing into the row that was freed. At the second report the comparison with that
  key reads freed storage; when it does not find the keys equal, the table gets a second
  row for the relay.
\<close>

lemma g_hash_table_insert_again_eval:
  "g_hash_table_insert staleEq ''A'' v1 [] = [(Live ''A'', v1)]
   \<and> g_hash_table_insert staleEq ''A'' v2 [(Live ''A'', v1)] = [(Freed ''A'', v2)]
   \<and> g_hash_table_insert False ''A'' v3 [(Freed ''A'', v2)] = [(Freed ''A'', v2), (Live ''A'', v3)]
   \<and> g_hash_table_insert True ''A'' v3 [(Freed ''A'', v2)] = [(Freed ''A'', v3)]"
  by simp


end
